theory Spec2Isabelle
  imports Complex_Main
begin

section \<open>Data model\<close>

text \<open>
  The TypeScript \<open>number\<close> type is modelled by \<^typ>\<open>nat\<close> or \<^typ>\<open>int\<close> where the source
  only counts or indexes, and by \<^typ>\<open>real\<close> where it computes with fractions.  A JavaScript
  number is an IEEE double, so a computed fraction is the rounding of the real one.  The
  rounding is part of the model where a value is compared with a bound it can reach or
  stored with fewer digits: in \<open>calculateIoU\<close> (section \<open>IEEE doubles\<close>), in the batch
  percentage of \<open>evaluation.ts\<close>, and in the gray values and the threshold of
  \<open>detectShapes\<close>.  The metrics of \<open>evaluateDetection\<close> and the geometric features of a
  region are the real quotients that the doubles approximate.  Record fields carry a prefix
  where two interfaces of the source share a field name.
\<close>

record Point =
  pt_x :: real
  pt_y :: real

record BBox =
  box_x :: real
  box_y :: real
  box_width :: real
  box_height :: real

datatype ShapeType = Circle | Triangle | Rectangle | Pentagon | Star

fun type_name :: "ShapeType \<Rightarrow> string" where
  "type_name Circle = ''circle''"
| "type_name Triangle = ''triangle''"
| "type_name Rectangle = ''rectangle''"
| "type_name Pentagon = ''pentagon''"
| "type_name Star = ''star''"

record DetectedShape =
  shape_type :: ShapeType
  confidence :: real
  boundingBox :: BBox
  center :: Point
  area :: real

record DetectionResult =
  shapes :: "DetectedShape list"
  processingTime :: real
  imageWidth :: nat
  imageHeight :: nat

text \<open>
  \<open>GroundTruthShape\<close> of \<open>evaluation-utils.ts\<close>: every field but \<open>type\<close> is optional
  there (\<open>center?\<close>, \<open>bounding_box?\<close>, \<open>area?\<close>, \<open>confidence_expected?\<close>); an absent field
  is \<^const>\<open>None\<close>.  The fields \<open>vertices\<close> and \<open>radius\<close> are never read by the code
  modelled here.
\<close>

record GroundTruthShape =
  gt_type :: string
  gt_center :: "Point option"
  bounding_box :: "BBox option"
  gt_area :: "real option"
  confidence_expected :: "real option"

record EvaluationMetrics =
  precision :: real
  recall :: real
  f1_score :: real
  average_iou :: real
  center_point_accuracy :: real
  area_accuracy :: real
  confidence_calibration :: real
  processing_time :: real

text \<open>
  Reading a property of \<open>undefined\<close> raises a \<open>TypeError\<close> in JavaScript, a call with
  more arguments than the engine accepts a \<open>RangeError\<close>; \<open>LoadError\<close> stands for any
  exception of the image loading collaborators.
\<close>

datatype js_error = TypeError | RangeError | LoadError


section \<open>evaluation-utils.ts\<close>

subsection \<open>calculateIoU\<close>

text \<open>
  The local constants of \<open>calculateIoU\<close>, one definition each, over the reals.  The same
  computation on doubles is \<open>calculateIoU_double\<close> in the next section.
\<close>

definition iou_x1 :: "BBox \<Rightarrow> BBox \<Rightarrow> real" where
  "iou_x1 box1 box2 = max (box_x box1) (box_x box2)"

definition iou_y1 :: "BBox \<Rightarrow> BBox \<Rightarrow> real" where
  "iou_y1 box1 box2 = max (box_y box1) (box_y box2)"

definition iou_x2 :: "BBox \<Rightarrow> BBox \<Rightarrow> real" where
  "iou_x2 box1 box2 = min (box_x box1 + box_width box1) (box_x box2 + box_width box2)"

definition iou_y2 :: "BBox \<Rightarrow> BBox \<Rightarrow> real" where
  "iou_y2 box1 box2 = min (box_y box1 + box_height box1) (box_y box2 + box_height box2)"

definition iou_intersection :: "BBox \<Rightarrow> BBox \<Rightarrow> real" where
  "iou_intersection box1 box2 =
     (iou_x2 box1 box2 - iou_x1 box1 box2) * (iou_y2 box1 box2 - iou_y1 box1 box2)"

definition iou_union :: "BBox \<Rightarrow> BBox \<Rightarrow> real" where
  "iou_union box1 box2 =
     box_width box1 * box_height box1 + box_width box2 * box_height box2
       - iou_intersection box1 box2"

definition calculateIoU :: "BBox \<Rightarrow> BBox \<Rightarrow> real" where
  "calculateIoU box1 box2 =
     (if iou_x2 box1 box2 \<le> iou_x1 box1 box2 \<or> iou_y2 box1 box2 \<le> iou_y1 box1 box2 then 0
      else iou_intersection box1 box2 / iou_union box1 box2)"

subsection \<open>calculateDistance\<close>

definition calculateDistance :: "Point \<Rightarrow> Point \<Rightarrow> real" where
  "calculateDistance p1 p2 = sqrt ((pt_x p2 - pt_x p1)\<^sup>2 + (pt_y p2 - pt_y p1)\<^sup>2)"

subsection \<open>evaluateDetection\<close>

text \<open>
  The three variables of the inner loop: \<open>bestMatch\<close> (\<open>null\<close> is \<^const>\<open>None\<close>),
  \<open>bestIoU\<close> and \<open>bestIndex\<close>.
\<close>

type_synonym best = "GroundTruthShape option \<times> real \<times> int"

text \<open>
  The inner \<open>for\<close> loop over the ground-truth indices still to visit.  The call
  \<open>calculateIoU(detectedShape.boundingBox, gtShape.bounding_box)\<close> reads \<open>box2.x\<close>, which
  raises when the ground-truth shape has no \<open>bounding_box\<close>.  The threshold is the
  constant \<open>iouThreshold\<close> of the source, taken as a parameter.
\<close>

fun find_best ::
  "real \<Rightarrow> nat set \<Rightarrow> DetectedShape \<Rightarrow> GroundTruthShape list \<Rightarrow> nat list \<Rightarrow> best
     \<Rightarrow> js_error + best" where
  "find_best iouThreshold matched detectedShape groundTruth [] b = Inr b"
| "find_best iouThreshold matched detectedShape groundTruth (i # rest) (bestMatch, bestIoU, bestIndex) =
     (if i \<in> matched
      then find_best iouThreshold matched detectedShape groundTruth rest (bestMatch, bestIoU, bestIndex)
      else if type_name (shape_type detectedShape) \<noteq> gt_type (groundTruth ! i)
      then find_best iouThreshold matched detectedShape groundTruth rest (bestMatch, bestIoU, bestIndex)
      else (case bounding_box (groundTruth ! i) of
              None \<Rightarrow> Inl TypeError
            | Some box2 \<Rightarrow>
                (if calculateIoU (boundingBox detectedShape) box2 > bestIoU
                    \<and> calculateIoU (boundingBox detectedShape) box2 > iouThreshold
                 then find_best iouThreshold matched detectedShape groundTruth rest
                        (Some (groundTruth ! i), calculateIoU (boundingBox detectedShape) box2, int i)
                 else find_best iouThreshold matched detectedShape groundTruth rest
                        (bestMatch, bestIoU, bestIndex))))"

text \<open>The accumulators of the outer loop, with the set \<open>matched\<close>.\<close>

record match_state =
  truePositives :: nat
  totalIoU :: real
  totalCenterDistance :: real
  totalAreaError :: real
  confidenceErrors :: real
  matched :: "nat set"

definition init_state :: match_state where
  "init_state = \<lparr>truePositives = 0, totalIoU = 0, totalCenterDistance = 0,
     totalAreaError = 0, confidenceErrors = 0, matched = {}\<rparr>"

text \<open>
  The body of \<open>if (bestMatch) { ... }\<close>.  A number is truthy when it is not zero, an
  object when it is present; \<open>detectedShape.center\<close> is always present.
\<close>

definition record_match ::
  "DetectedShape \<Rightarrow> GroundTruthShape \<Rightarrow> real \<Rightarrow> int \<Rightarrow> match_state \<Rightarrow> match_state" where
  "record_match detectedShape bestMatch bestIoU bestIndex s =
     s\<lparr>matched := insert (nat bestIndex) (matched s),
       truePositives := truePositives s + 1,
       totalIoU := totalIoU s + bestIoU,
       totalCenterDistance :=
         (case gt_center bestMatch of
            None \<Rightarrow> totalCenterDistance s
          | Some c \<Rightarrow> totalCenterDistance s + calculateDistance (center detectedShape) c),
       totalAreaError :=
         (case gt_area bestMatch of
            None \<Rightarrow> totalAreaError s
          | Some a \<Rightarrow>
              if a \<noteq> 0 \<and> area detectedShape \<noteq> 0
              then totalAreaError s + \<bar>area detectedShape - a\<bar> / a
              else totalAreaError s),
       confidenceErrors :=
         (case confidence_expected bestMatch of
            None \<Rightarrow> confidenceErrors s
          | Some c \<Rightarrow>
              if c \<noteq> 0 \<and> confidence detectedShape \<noteq> 0
              then confidenceErrors s + \<bar>confidence detectedShape - c\<bar>
              else confidenceErrors s)\<rparr>"

text \<open>The outer loop \<open>for (const detectedShape of detected)\<close>.\<close>

fun match_loop ::
  "real \<Rightarrow> GroundTruthShape list \<Rightarrow> DetectedShape list \<Rightarrow> match_state
     \<Rightarrow> js_error + match_state" where
  "match_loop iouThreshold groundTruth [] s = Inr s"
| "match_loop iouThreshold groundTruth (detectedShape # rest) s =
     (case find_best iouThreshold (matched s) detectedShape groundTruth
             [0 ..< length groundTruth] (None, 0, -1) of
        Inl e \<Rightarrow> Inl e
      | Inr (bestMatch, bestIoU, bestIndex) \<Rightarrow>
          (case bestMatch of
             None \<Rightarrow> match_loop iouThreshold groundTruth rest s
           | Some bm \<Rightarrow>
               match_loop iouThreshold groundTruth rest
                 (record_match detectedShape bm bestIoU bestIndex s)))"

text \<open>The metrics computed from the accumulators after the loop.\<close>

definition metrics_of ::
  "DetectedShape list \<Rightarrow> GroundTruthShape list \<Rightarrow> match_state \<Rightarrow> EvaluationMetrics" where
  "metrics_of detected groundTruth s =
     (let precision = (if length detected > 0
                       then real (truePositives s) / real (length detected) else 0);
          recall = (if length groundTruth > 0
                    then real (truePositives s) / real (length groundTruth) else 1);
          f1Score = (if precision + recall > 0
                     then 2 * (precision * recall) / (precision + recall) else 0)
      in \<lparr>precision = precision,
          recall = recall,
          f1_score = f1Score,
          average_iou =
            (if truePositives s > 0 then totalIoU s / real (truePositives s) else 0),
          center_point_accuracy =
            (if truePositives s > 0 then totalCenterDistance s / real (truePositives s) else 0),
          area_accuracy =
            (if truePositives s > 0 then 1 - totalAreaError s / real (truePositives s) else 0),
          confidence_calibration =
            (if truePositives s > 0 then 1 - confidenceErrors s / real (truePositives s) else 0),
          processing_time = 0\<rparr>)"

definition evaluateDetection_at ::
  "real \<Rightarrow> DetectedShape list \<Rightarrow> GroundTruthShape list \<Rightarrow> string
     \<Rightarrow> js_error + EvaluationMetrics" where
  "evaluateDetection_at iouThreshold detected groundTruth imageName =
     (case match_loop iouThreshold groundTruth detected init_state of
        Inl e \<Rightarrow> Inl e
      | Inr s \<Rightarrow> Inr (metrics_of detected groundTruth s))"

definition evaluateDetection ::
  "DetectedShape list \<Rightarrow> GroundTruthShape list \<Rightarrow> string \<Rightarrow> js_error + EvaluationMetrics" where
  "evaluateDetection detected groundTruth imageName =
     evaluateDetection_at (1/2) detected groundTruth imageName"



section \<open>IEEE doubles\<close>

text \<open>
  A JavaScript number is an IEEE 754 binary64 value.  Where a property depends on the
  rounding of the source's arithmetic, the result of an operation is the exact result
  rounded to the nearest double, a tie to the double with even significand: \<^term>\<open>fl\<close>
  below.  The exponent of the binade of \<open>x\<close> is at least \<open>-1022\<close> (below that the doubles
  are subnormal, with the spacing \<open>2\<^sup>-\<^sup>1\<^sup>0\<^sup>7\<^sup>4\<close>); the significand has 53 bits.
\<close>

definition double_exponent :: "real \<Rightarrow> int" where
  "double_exponent x = max \<lfloor>log 2 \<bar>x\<bar>\<rfloor> (- 1022)"

definition ulp :: "real \<Rightarrow> real" where
  "ulp x = 2 powr (real_of_int (double_exponent x) - 52)"

definition round_half_even :: "real \<Rightarrow> int" where
  "round_half_even v =
     (if v - real_of_int \<lfloor>v\<rfloor> < 1/2 then \<lfloor>v\<rfloor>
      else if v - real_of_int \<lfloor>v\<rfloor> > 1/2 then \<lfloor>v\<rfloor> + 1
      else if even \<lfloor>v\<rfloor> then \<lfloor>v\<rfloor> else \<lfloor>v\<rfloor> + 1)"

definition fl :: "real \<Rightarrow> real" where
  "fl x = (if x = 0 then 0 else real_of_int (round_half_even (x / ulp x)) * ulp x)"

text \<open>The finite doubles.\<close>

definition is_double :: "real \<Rightarrow> bool" where
  "is_double x \<longleftrightarrow> fl x = x \<and> \<bar>x\<bar> < 2 ^ 1024"

text \<open>
  A number with the infinities and \<open>NaN\<close>.  The two zeros are not told apart: the code
  modelled with this type never divides a nonzero number by \<open>-0\<close>.
\<close>

datatype jsnum = Num real | PosInf | NegInf | NaN

text \<open>Rounding with overflow: a rounded magnitude of \<open>2\<^sup>1\<^sup>0\<^sup>2\<^sup>4\<close> or more is infinite.\<close>

definition round_js :: "real \<Rightarrow> jsnum" where
  "round_js x =
     (if 2 ^ 1024 \<le> fl x then PosInf
      else if fl x \<le> - (2 ^ 1024) then NegInf
      else Num (fl x))"

fun js_neg :: "jsnum \<Rightarrow> jsnum" where
  "js_neg (Num a) = Num (- a)"
| "js_neg PosInf = NegInf"
| "js_neg NegInf = PosInf"
| "js_neg NaN = NaN"

fun js_add :: "jsnum \<Rightarrow> jsnum \<Rightarrow> jsnum" where
  "js_add (Num a) (Num b) = round_js (a + b)"
| "js_add NaN _ = NaN"
| "js_add _ NaN = NaN"
| "js_add PosInf NegInf = NaN"
| "js_add NegInf PosInf = NaN"
| "js_add PosInf _ = PosInf"
| "js_add _ PosInf = PosInf"
| "js_add NegInf _ = NegInf"
| "js_add _ NegInf = NegInf"

definition js_sub :: "jsnum \<Rightarrow> jsnum \<Rightarrow> jsnum" where
  "js_sub a b = js_add a (js_neg b)"

text \<open>The sign of a number that is not \<open>NaN\<close>: \<open>-1\<close>, \<open>0\<close> or \<open>1\<close>.\<close>

fun js_sign :: "jsnum \<Rightarrow> int" where
  "js_sign (Num a) = (if a < 0 then - 1 else if a = 0 then 0 else 1)"
| "js_sign PosInf = 1"
| "js_sign NegInf = - 1"
| "js_sign NaN = 0"

definition signed_inf :: "int \<Rightarrow> jsnum" where
  "signed_inf s = (if s < 0 then NegInf else PosInf)"

fun js_mul :: "jsnum \<Rightarrow> jsnum \<Rightarrow> jsnum" where
  "js_mul (Num a) (Num b) = round_js (a * b)"
| "js_mul NaN _ = NaN"
| "js_mul _ NaN = NaN"
| "js_mul a b =
     (if js_sign a = 0 \<or> js_sign b = 0 then NaN else signed_inf (js_sign a * js_sign b))"

fun js_div :: "jsnum \<Rightarrow> jsnum \<Rightarrow> jsnum" where
  "js_div (Num a) (Num b) =
     (if b \<noteq> 0 then round_js (a / b)
      else if a = 0 then NaN
      else signed_inf (js_sign (Num a)))"
| "js_div NaN _ = NaN"
| "js_div _ NaN = NaN"
| "js_div (Num a) _ = Num 0"
| "js_div a (Num b) = signed_inf (js_sign a * (if b < 0 then - 1 else 1))"
| "js_div _ _ = NaN"

text \<open>\<open>a <= b\<close>, false when an operand is \<open>NaN\<close>; \<open>Math.max\<close> and \<open>Math.min\<close>.\<close>

fun js_le :: "jsnum \<Rightarrow> jsnum \<Rightarrow> bool" where
  "js_le (Num a) (Num b) = (a \<le> b)"
| "js_le NaN _ = False"
| "js_le _ NaN = False"
| "js_le NegInf _ = True"
| "js_le _ PosInf = True"
| "js_le _ _ = False"

definition js_max :: "jsnum \<Rightarrow> jsnum \<Rightarrow> jsnum" where
  "js_max a b = (if a = NaN \<or> b = NaN then NaN else if js_le a b then b else a)"

definition js_min :: "jsnum \<Rightarrow> jsnum \<Rightarrow> jsnum" where
  "js_min a b = (if a = NaN \<or> b = NaN then NaN else if js_le a b then a else b)"

subsection \<open>calculateIoU on doubles\<close>

text \<open>
  \<open>calculateIoU\<close> of \<open>evaluation-utils.ts\<close> as the doubles compute it, on boxes whose four
  fields are finite doubles; the local constants first.
\<close>

definition dbl_x1 :: "BBox \<Rightarrow> BBox \<Rightarrow> jsnum" where
  "dbl_x1 box1 box2 = js_max (Num (box_x box1)) (Num (box_x box2))"

definition dbl_y1 :: "BBox \<Rightarrow> BBox \<Rightarrow> jsnum" where
  "dbl_y1 box1 box2 = js_max (Num (box_y box1)) (Num (box_y box2))"

definition dbl_x2 :: "BBox \<Rightarrow> BBox \<Rightarrow> jsnum" where
  "dbl_x2 box1 box2 =
     js_min (js_add (Num (box_x box1)) (Num (box_width box1)))
            (js_add (Num (box_x box2)) (Num (box_width box2)))"

definition dbl_y2 :: "BBox \<Rightarrow> BBox \<Rightarrow> jsnum" where
  "dbl_y2 box1 box2 =
     js_min (js_add (Num (box_y box1)) (Num (box_height box1)))
            (js_add (Num (box_y box2)) (Num (box_height box2)))"

definition dbl_intersection :: "BBox \<Rightarrow> BBox \<Rightarrow> jsnum" where
  "dbl_intersection box1 box2 =
     js_mul (js_sub (dbl_x2 box1 box2) (dbl_x1 box1 box2))
            (js_sub (dbl_y2 box1 box2) (dbl_y1 box1 box2))"

definition dbl_union :: "BBox \<Rightarrow> BBox \<Rightarrow> jsnum" where
  "dbl_union box1 box2 =
     js_sub (js_add (js_mul (Num (box_width box1)) (Num (box_height box1)))
                    (js_mul (Num (box_width box2)) (Num (box_height box2))))
            (dbl_intersection box1 box2)"

definition calculateIoU_double :: "BBox \<Rightarrow> BBox \<Rightarrow> jsnum" where
  "calculateIoU_double box1 box2 =
     (if js_le (dbl_x2 box1 box2) (dbl_x1 box1 box2)
         \<or> js_le (dbl_y2 box1 box2) (dbl_y1 box1 box2) then Num 0
      else js_div (dbl_intersection box1 box2) (dbl_union box1 box2))"

text \<open>Boxes whose fields are finite doubles, and boxes of pixel coordinates.\<close>

definition double_box :: "BBox \<Rightarrow> bool" where
  "double_box b \<longleftrightarrow>
     is_double (box_x b) \<and> is_double (box_y b)
     \<and> is_double (box_width b) \<and> is_double (box_height b)"

definition pixel_number :: "real \<Rightarrow> bool" where
  "pixel_number v \<longleftrightarrow> v \<in> \<int> \<and> \<bar>v\<bar> \<le> 2 ^ 25"

definition pixel_box :: "BBox \<Rightarrow> bool" where
  "pixel_box b \<longleftrightarrow>
     pixel_number (box_x b) \<and> pixel_number (box_y b)
     \<and> pixel_number (box_width b) \<and> pixel_number (box_height b)"

text \<open>
  Two boxes with nonnegative widths and heights whose fields are doubles but not pixel
  coordinates: a square of side \<open>2\<^sup>-\<^sup>6\<^sup>0\<^sup>0\<close>, and the box of the literal
  \<open>{ x: 0.1, y: 0.1, width: 0.2, height: 0.2 }\<close>.
\<close>

definition tiny_box :: BBox where
  "tiny_box = \<lparr>box_x = 0, box_y = 0, box_width = 2 powr (- 600), box_height = 2 powr (- 600)\<rparr>"

definition decimal_box :: BBox where
  "decimal_box = \<lparr>box_x = fl (1/10), box_y = fl (1/10),
                   box_width = fl (2/10), box_height = fl (2/10)\<rparr>"
subsection \<open>Vocabulary for the matching\<close>

text \<open>
  The IoU of a detection with the ground-truth shape at an index (0 where that shape has
  no box), as the inner loop computes it.
\<close>

definition iou_at :: "DetectedShape \<Rightarrow> GroundTruthShape list \<Rightarrow> nat \<Rightarrow> real" where
  "iou_at d gt i =
     (case bounding_box (gt ! i) of None \<Rightarrow> 0 | Some b \<Rightarrow> calculateIoU (boundingBox d) b)"

definition eligible :: "nat set \<Rightarrow> DetectedShape \<Rightarrow> GroundTruthShape list \<Rightarrow> nat \<Rightarrow> bool" where
  "eligible M d gt i \<longleftrightarrow> i \<notin> M \<and> gt_type (gt ! i) = type_name (shape_type d)"


text \<open>
  The trace of the outer loop: for each detection in order, the ground-truth index it
  takes (\<open>bestIndex\<close> when \<open>bestMatch\<close> is set) or \<^const>\<open>None\<close>.  It threads the set
  \<open>matched\<close> exactly as \<^const>\<open>match_loop\<close> does and is only used to state properties of
  the matching, which the source does not return.
\<close>

fun matching ::
  "real \<Rightarrow> GroundTruthShape list \<Rightarrow> DetectedShape list \<Rightarrow> nat set
     \<Rightarrow> js_error + nat option list" where
  "matching iouThreshold groundTruth [] M = Inr []"
| "matching iouThreshold groundTruth (detectedShape # rest) M =
     (case find_best iouThreshold M detectedShape groundTruth
             [0 ..< length groundTruth] (None, 0, -1) of
        Inl e \<Rightarrow> Inl e
      | Inr (bestMatch, bestIoU, bestIndex) \<Rightarrow>
          (case bestMatch of
             None \<Rightarrow>
               (case matching iouThreshold groundTruth rest M of
                  Inl e \<Rightarrow> Inl e | Inr asg \<Rightarrow> Inr (None # asg))
           | Some bm \<Rightarrow>
               (case matching iouThreshold groundTruth rest (insert (nat bestIndex) M) of
                  Inl e \<Rightarrow> Inl e | Inr asg \<Rightarrow> Inr (Some (nat bestIndex) # asg))))"

text \<open>The ground-truth indices taken by the detections before position \<open>j\<close>.\<close>

definition assigned_before :: "nat option list \<Rightarrow> nat \<Rightarrow> nat set" where
  "assigned_before asg j = {i. \<exists>k<j. k < length asg \<and> asg ! k = Some i}"

text \<open>
  What one detection may take when the indices in \<open>U\<close> are already used: a shape of its
  type outside \<open>U\<close> whose IoU exceeds the threshold and is the largest among the shapes of
  its type outside \<open>U\<close>; nothing only when no such shape exceeds the threshold.
\<close>

definition greedy_choice ::
  "real \<Rightarrow> GroundTruthShape list \<Rightarrow> DetectedShape \<Rightarrow> nat set \<Rightarrow> nat option \<Rightarrow> bool" where
  "greedy_choice thr gt d U a =
     (case a of
        Some i \<Rightarrow>
          i < length gt \<and> eligible U d gt i \<and> bounding_box (gt ! i) \<noteq> None
          \<and> thr < iou_at d gt i
          \<and> (\<forall>i'<length gt. eligible U d gt i' \<longrightarrow> iou_at d gt i' \<le> iou_at d gt i)
      | None \<Rightarrow> (\<forall>i'<length gt. eligible U d gt i' \<longrightarrow> iou_at d gt i' \<le> thr))"

text \<open>
  The relation kept between two runs of the inner loop on the same detection, the first
  with used set \<open>A\<close> and the lower threshold, the second with a subset of \<open>A\<close> and the
  threshold \<open>t2\<close>.
\<close>

fun lock :: "nat set \<Rightarrow> real \<Rightarrow> best \<Rightarrow> best \<Rightarrow> bool" where
  "lock A t2 (bm1, v1, k1) (bm2, v2, k2) \<longleftrightarrow>
     (t2 < v1 \<longrightarrow> v1 \<le> v2) \<and>
     (bm2 \<noteq> None \<longrightarrow> t2 < v2 \<and> 0 \<le> k2) \<and>
     (bm2 \<noteq> None \<and> nat k2 \<notin> A \<longrightarrow> bm1 \<noteq> None \<and> k1 = k2 \<and> v1 = v2)"

text \<open>
  Every ground-truth shape that has the type of some detection carries a bounding box.
  This is exactly the condition under which \<open>evaluateDetection\<close> returns instead of raising.
\<close>

definition boxes_present :: "DetectedShape list \<Rightarrow> GroundTruthShape list \<Rightarrow> bool" where
  "boxes_present detected groundTruth \<longleftrightarrow>
     (\<forall>d\<in>set detected. \<forall>g\<in>set groundTruth.
        gt_type g = type_name (shape_type d) \<longrightarrow> bounding_box g \<noteq> None)"

section \<open>evaluation.ts\<close>

subsection \<open>calculateScore and calculateGrade\<close>

text \<open>
  \<open>calculateScore\<close> returns \<open>{ passed, feedback, score }\<close>.  The feedback lines are
  formatted text that no computation reads; they are left out.
\<close>

record ScoreResult =
  sr_passed :: bool
  sr_score :: nat

definition calculateScore :: "EvaluationMetrics \<Rightarrow> DetectionResult \<Rightarrow> ScoreResult" where
  "calculateScore evaluation detection =
     (let f1 = f1_score evaluation;
          score1 = (if f1 \<ge> 9/10 then 40 else if f1 \<ge> 7/10 then 30
                    else if f1 \<ge> 5/10 then 20 else 0);
          avgIoU = average_iou evaluation;
          score2 = score1 + (if avgIoU \<ge> 8/10 then 25 else if avgIoU \<ge> 6/10 then 20
                             else if avgIoU \<ge> 4/10 then 10 else 0);
          centerAcc = center_point_accuracy evaluation;
          score3 = score2 + (if centerAcc \<le> 5 then 15 else if centerAcc \<le> 10 then 12
                             else if centerAcc \<le> 20 then 8 else 0);
          areaAcc = area_accuracy evaluation;
          score4 = score3 + (if areaAcc \<ge> 9/10 then 10 else if areaAcc \<ge> 8/10 then 8
                             else if areaAcc \<ge> 7/10 then 5 else 0);
          processingTime = processingTime detection;
          score = score4 + (if processingTime \<le> 500 then 10 else if processingTime \<le> 1000 then 8
                            else if processingTime \<le> 2000 then 5 else 0)
      in \<lparr>sr_passed = (score \<ge> 60), sr_score = score\<rparr>)"

text \<open>
  \<open>calculateGrade\<close> receives the percentage as the doubles computed it; each test
  \<open>percentage >= b\<close> is false for \<open>NaN\<close>.
\<close>

definition calculateGrade :: "jsnum \<Rightarrow> string" where
  "calculateGrade percentage =
     (if js_le (Num 90) percentage then ''A''
      else if js_le (Num 80) percentage then ''B''
      else if js_le (Num 70) percentage then ''C''
      else if js_le (Num 60) percentage then ''D''
      else ''F'')"

subsection \<open>runSelectedEvaluation and runEvaluation\<close>

text \<open>
  The two functions differ only in where the list of image names comes from.  Fetching,
  decoding and detecting are the work of collaborators; what they hand to the scoring
  code, per image, is either an exception or the detection result with the ground-truth
  shapes of the image (the empty list when the image has no entry).
\<close>

type_synonym image_outcome = "js_error + (DetectionResult \<times> GroundTruthShape list)"

record TestResult =
  tr_imageName :: string
  tr_detectionResult :: DetectionResult
  tr_evaluation :: EvaluationMetrics
  tr_passed :: bool

text \<open>The variables the loop over the images updates.\<close>

record run_state =
  totalPrecision :: real
  totalRecall :: real
  totalF1 :: real
  totalIoU_sum :: real
  totalProcessingTime :: real
  totalScore :: nat
  testResults :: "TestResult list"

definition init_run :: run_state where
  "init_run = \<lparr>totalPrecision = 0, totalRecall = 0, totalF1 = 0, totalIoU_sum = 0,
     totalProcessingTime = 0, totalScore = 0, testResults = []\<rparr>"

text \<open>The test result pushed by the \<open>catch\<close> block.\<close>

definition failed_result :: "string \<Rightarrow> TestResult" where
  "failed_result imageName =
     \<lparr>tr_imageName = imageName,
      tr_detectionResult = \<lparr>shapes = [], processingTime = 0, imageWidth = 0, imageHeight = 0\<rparr>,
      tr_evaluation = \<lparr>precision = 0, recall = 0, f1_score = 0, average_iou = 0,
        center_point_accuracy = 0, area_accuracy = 0, confidence_calibration = 0,
        processing_time = 0\<rparr>,
      tr_passed = False\<rparr>"

text \<open>
  One iteration of the loop: the \<open>try\<close> block, and the \<open>catch\<close> block for an exception of
  the collaborators or of \<open>evaluateDetection\<close>.
\<close>

definition test_image :: "run_state \<Rightarrow> string \<times> image_outcome \<Rightarrow> run_state" where
  "test_image st img =
     (case snd img of
        Inl e \<Rightarrow> st\<lparr>testResults := testResults st @ [failed_result (fst img)]\<rparr>
      | Inr (detectionResult, gtShapes) \<Rightarrow>
          (case evaluateDetection (shapes detectionResult) gtShapes (fst img) of
             Inl e \<Rightarrow> st\<lparr>testResults := testResults st @ [failed_result (fst img)]\<rparr>
           | Inr ev \<Rightarrow>
               (let evaluation = ev\<lparr>processing_time := processingTime detectionResult\<rparr>;
                    sr = calculateScore evaluation detectionResult
                in st\<lparr>totalPrecision := totalPrecision st + precision evaluation,
                      totalRecall := totalRecall st + recall evaluation,
                      totalF1 := totalF1 st + f1_score evaluation,
                      totalIoU_sum := totalIoU_sum st + average_iou evaluation,
                      totalProcessingTime := totalProcessingTime st + processing_time evaluation,
                      totalScore := totalScore st + sr_score sr,
                      testResults := testResults st @
                        [\<lparr>tr_imageName = fst img, tr_detectionResult = detectionResult,
                          tr_evaluation = evaluation, tr_passed = sr_passed sr\<rparr>]\<rparr>)))"

text \<open>
  \<open>Math.round\<close> returns the nearest integer, a tie upwards, and is exact on doubles; it
  returns an infinity and \<open>NaN\<close> unchanged.
\<close>

definition math_round :: "real \<Rightarrow> int" where
  "math_round x = \<lfloor>x + 1/2\<rfloor>"

fun js_math_round :: "jsnum \<Rightarrow> jsnum" where
  "js_math_round (Num x) = Num (real_of_int (math_round x))"
| "js_math_round v = v"

text \<open>
  The averages of the summary are quotients of the real totals; a quotient by
  \<open>numTests = 0\<close> is \<open>NaN\<close> in the source, \<^const>\<open>None\<close> here.
\<close>

record Summary =
  averagePrecision :: "real option"
  averageRecall :: "real option"
  averageF1 :: "real option"
  averageIoU :: "real option"
  sum_totalProcessingTime :: real

record OverallResults =
  or_totalScore :: int
  or_maxScore :: nat
  or_percentage :: jsnum
  or_grade :: string
  or_testResults :: "TestResult list"
  or_summary :: Summary

definition quotient_or_nan :: "real \<Rightarrow> nat \<Rightarrow> real option" where
  "quotient_or_nan a n = (if n = 0 then None else Some (a / real n))"

text \<open>
  The local \<open>percentage = (totalScore / maxScore) * 100\<close> on doubles: the quotient is
  rounded, then the product.  \<open>totalScore\<close> and \<open>maxScore\<close> are sums of integers, exact in a
  double.  With no test result the quotient is \<open>0 / 0\<close>.
\<close>

definition batch_percentage :: "run_state \<Rightarrow> jsnum" where
  "batch_percentage st =
     (let numTests = length (testResults st);
          maxScore = numTests * 100
      in js_mul (js_div (Num (real (totalScore st))) (Num (real maxScore))) (Num 100))"

text \<open>
  The result: the field \<open>percentage\<close> is \<open>Math.round(percentage * 100) / 100\<close>, the grade
  is taken from the local \<open>percentage\<close>.
\<close>

definition overall_results :: "run_state \<Rightarrow> OverallResults" where
  "overall_results st =
     (let numTests = length (testResults st);
          maxScore = numTests * 100;
          percentage = batch_percentage st
      in \<lparr>or_totalScore = math_round (real (totalScore st)),
          or_maxScore = maxScore,
          or_percentage = js_div (js_math_round (js_mul percentage (Num 100))) (Num 100),
          or_grade = calculateGrade percentage,
          or_testResults = testResults st,
          or_summary = \<lparr>averagePrecision = quotient_or_nan (totalPrecision st) numTests,
            averageRecall = quotient_or_nan (totalRecall st) numTests,
            averageF1 = quotient_or_nan (totalF1 st) numTests,
            averageIoU = quotient_or_nan (totalIoU_sum st) numTests,
            sum_totalProcessingTime = totalProcessingTime st\<rparr>\<rparr>)"

definition runSelectedEvaluation :: "(string \<times> image_outcome) list \<Rightarrow> OverallResults" where
  "runSelectedEvaluation images = overall_results (foldl test_image init_run images)"

subsection \<open>Vocabulary for the batch score\<close>

text \<open>
  The score of an image is what its iteration adds to \<open>totalScore\<close>: the score that
  \<open>calculateScore\<close> returns, and 0 when the iteration ends in the \<open>catch\<close> block.
\<close>

definition image_score :: "string \<times> image_outcome \<Rightarrow> nat" where
  "image_score img =
     (case snd img of
        Inl e \<Rightarrow> 0
      | Inr (detectionResult, gtShapes) \<Rightarrow>
          (case evaluateDetection (shapes detectionResult) gtShapes (fst img) of
             Inl e \<Rightarrow> 0
           | Inr ev \<Rightarrow>
               sr_score (calculateScore
                 (ev\<lparr>processing_time := processingTime detectionResult\<rparr>) detectionResult)))"

definition score_sum :: "(string \<times> image_outcome) list \<Rightarrow> nat" where
  "score_sum images = sum_list (map image_score images)"

text \<open>The batch percentage in the words of the specification: \<open>\<Sigma>score / (100\<cdot>N)\<close>.\<close>

definition spec_percentage :: "nat \<Rightarrow> nat \<Rightarrow> real" where
  "spec_percentage S N = real S / (100 * real N)"

section \<open>Example inputs\<close>

text \<open>
  Two circle detections one pixel apart and three ground-truth shapes: two circles with the
  boxes of the detections in the opposite order, and a star without a bounding box.
\<close>

definition unit_box :: "real \<Rightarrow> real \<Rightarrow> BBox" where
  "unit_box x y = \<lparr>box_x = x, box_y = y, box_width = 10, box_height = 10\<rparr>"

definition circle_at :: "real \<Rightarrow> real \<Rightarrow> DetectedShape" where
  "circle_at x y = \<lparr>shape_type = Circle, confidence = 9/10, boundingBox = unit_box x y,
     center = \<lparr>pt_x = x + 5, pt_y = y + 5\<rparr>, area = 100\<rparr>"

definition gt_circle_at :: "real \<Rightarrow> real \<Rightarrow> GroundTruthShape" where
  "gt_circle_at x y = \<lparr>gt_type = ''circle'', gt_center = Some \<lparr>pt_x = x + 5, pt_y = y + 5\<rparr>,
     bounding_box = Some (unit_box x y), gt_area = Some 100, confidence_expected = Some (9/10)\<rparr>"

definition gt_star_no_box :: GroundTruthShape where
  "gt_star_no_box = \<lparr>gt_type = ''star'', gt_center = None, bounding_box = None,
     gt_area = None, confidence_expected = None\<rparr>"

definition example_detected :: "DetectedShape list" where
  "example_detected = [circle_at 0 0, circle_at 1 0]"

definition example_groundTruth :: "GroundTruthShape list" where
  "example_groundTruth = [gt_circle_at 1 0, gt_circle_at 0 0, gt_star_no_box]"

text \<open>
  An image whose only detection coincides with its only ground-truth shape, processed in
  20 ms; and the batch made of this image alone.
\<close>

definition perfect_image :: "string \<times> image_outcome" where
  "perfect_image =
     (''circle.png'',
      Inr (\<lparr>shapes = [circle_at 0 0], processingTime = 20, imageWidth = 200, imageHeight = 200\<rparr>,
           [gt_circle_at 0 0]))"

text \<open>
  An image with no detection and no ground truth, processed in the given number of
  milliseconds, and one whose loading fails.
\<close>

definition blank_image_after :: "real \<Rightarrow> string \<times> image_outcome" where
  "blank_image_after t =
     (''blank.png'',
      Inr (\<lparr>shapes = [], processingTime = t, imageWidth = 200, imageHeight = 200\<rparr>, []))"

definition blank_image :: "string \<times> image_outcome" where
  "blank_image = blank_image_after 20"

definition broken_image :: "string \<times> image_outcome" where
  "broken_image = (''broken.png'', Inl LoadError)"

text \<open>
  A batch of eight images whose scores sum to 115: five blank images processed in three
  seconds, two processed in one and a half, and one that fails to load.
\<close>

definition eight_images :: "(string \<times> image_outcome) list" where
  "eight_images =
     replicate 5 (blank_image_after 3000) @ replicate 2 (blank_image_after 1500) @ [broken_image]"

section \<open>main.ts: ShapeDetector.detectShapes\<close>

text \<open>
  \<open>ImageData\<close>: \<open>data\<close> is a \<open>Uint8ClampedArray\<close> of RGBA bytes in row-major order.  Reading
  a typed array past its end gives \<open>undefined\<close>, writing past its end does nothing.
\<close>

record ImageData =
  img_width :: nat
  img_height :: nat
  img_data :: "nat list"

subsection \<open>Step 1: grayscale\<close>

text \<open>
  Storing a number in a \<open>Uint8ClampedArray\<close> clamps it to \<open>[0, 255]\<close> and rounds it to the
  nearest integer, a tie to the even one.
\<close>

definition to_uint8_clamped :: "real \<Rightarrow> nat" where
  "to_uint8_clamped v =
     (let clamped = min (max v 0) 255;
          f = \<lfloor>clamped\<rfloor>
      in nat (if clamped < real_of_int f + 1/2 then f
              else if clamped > real_of_int f + 1/2 then f + 1
              else if even f then f else f + 1))"

text \<open>
  \<open>0.299 * r + 0.587 * g + 0.114 * b\<close> on doubles: the three literals are the doubles nearest
  to the decimals, each product and each sum is rounded, the sums from left to right.
\<close>

definition gray_value :: "nat \<Rightarrow> nat \<Rightarrow> nat \<Rightarrow> real" where
  "gray_value r g b =
     fl (fl (fl (fl (299/1000) * real r) + fl (fl (587/1000) * real g))
           + fl (fl (114/1000) * real b))"

text \<open>
  \<open>gray[i/4] = 0.299 * r + 0.587 * g + 0.114 * b\<close> for \<open>i = 4k\<close>.  The entry stays 0 when
  the loop does not reach \<open>4k\<close>, and is 0 when \<open>g\<close> or \<open>b\<close> is read past the end of \<open>data\<close>
  (the sum is \<open>NaN\<close> then).
\<close>

definition gray_at :: "nat list \<Rightarrow> nat \<Rightarrow> nat" where
  "gray_at data k =
     (if 4 * k < length data
      then (if 4 * k + 2 < length data
            then to_uint8_clamped (gray_value (data ! (4 * k)) (data ! (4 * k + 1))
                                     (data ! (4 * k + 2)))
            else 0)
      else 0)"

definition grayscale :: "ImageData \<Rightarrow> nat list" where
  "grayscale imageData =
     map (gray_at (img_data imageData)) [0 ..< img_width imageData * img_height imageData]"

subsection \<open>Step 2: threshold with polarity detection\<close>

text \<open>
  \<open>sum\<close> is a sum of bytes, exact in a double for every array an engine can hold; \<open>avg\<close>
  is the rounded quotient.
\<close>

definition binarize :: "nat list \<Rightarrow> nat list" where
  "binarize gray =
     (let sum = sum_list gray;
          avg = fl (real sum / real (length gray));
          darkPixels = length (filter (\<lambda>g. real g < avg) gray);
          lightPixels = length (filter (\<lambda>g. \<not> real g < avg) gray);
          shapesAreLight = (lightPixels < darkPixels)
      in map (\<lambda>g. if shapesAreLight then (if real g > avg then 1 else 0)
                   else (if real g < avg then 1 else 0)) gray)"

subsection \<open>Step 3: connected components\<close>

text \<open>A pixel is its \<open>x\<close> and \<open>y\<close>; neighbours of border pixels have coordinate \<open>-1\<close>.\<close>

type_synonym pixel = "int \<times> int"

definition dirs :: "(int \<times> int) list" where
  "dirs = [(1, 0), (-1, 0), (0, 1), (0, -1), (1, 1), (1, -1), (-1, 1), (-1, -1)]"

definition index :: "nat \<Rightarrow> int \<Rightarrow> int \<Rightarrow> nat" where
  "index width x y = nat (y * int width + x)"

definition out_of_bounds :: "nat \<Rightarrow> nat \<Rightarrow> int \<Rightarrow> int \<Rightarrow> bool" where
  "out_of_bounds width height nx ny \<longleftrightarrow> nx < 0 \<or> ny < 0 \<or> nx \<ge> int width \<or> ny \<ge> int height"

text \<open>
  The array \<open>visited\<close> holds a flag per pixel index, all clear at first; it is modelled by
  the set of the indices whose flag is set.  The stack \<open>q\<close> has its top at the head.
  One step of the loop over \<open>dirs\<close> inside the \<open>while\<close> loop:
\<close>

definition push_neighbour ::
  "nat \<Rightarrow> nat \<Rightarrow> nat list \<Rightarrow> pixel \<Rightarrow> nat set \<times> pixel list \<Rightarrow> int \<times> int
     \<Rightarrow> nat set \<times> pixel list" where
  "push_neighbour width height binary c vq d =
     (let nx = fst c + fst d; ny = snd c + snd d
      in if out_of_bounds width height nx ny then vq
         else if binary ! index width nx ny = 1 \<and> index width nx ny \<notin> fst vq
         then (insert (index width nx ny) (fst vq), (nx, ny) # snd vq)
         else vq)"

definition expand ::
  "nat \<Rightarrow> nat \<Rightarrow> nat list \<Rightarrow> pixel \<Rightarrow> nat set \<times> pixel list \<Rightarrow> nat set \<times> pixel list" where
  "expand width height binary c vq = foldl (push_neighbour width height binary c) vq dirs"

text \<open>
  The \<open>while (q.length)\<close> loop: pop a pixel, append it to \<open>pixels\<close>, push its unvisited
  foreground neighbours.  It returns \<open>visited\<close> and \<open>pixels\<close>.
\<close>

function flood ::
  "nat \<Rightarrow> nat \<Rightarrow> nat list \<Rightarrow> nat set \<Rightarrow> pixel list \<Rightarrow> pixel list \<Rightarrow> nat set \<times> pixel list" where
  "flood width height binary visited [] pixels = (visited, pixels)"
| "flood width height binary visited (c # q) pixels =
     flood width height binary
       (fst (expand width height binary c (visited, q)))
       (snd (expand width height binary c (visited, q)))
       (pixels @ [c])"
  by pat_completeness auto
termination
proof (relation "measure (\<lambda>(width, height, binary, visited, q, pixels).
          2 * card ({..< width * height} - visited) + length q)")
  show "wf (measure (\<lambda>(width, height, binary, visited, q, pixels).
          2 * card ({..< width * height} - visited) + length q))"
    by simp
next
  fix width height :: nat and binary :: "nat list" and visited :: "nat set"
    and c :: pixel and q pixels :: "pixel list"
  have idx: "index width nx ny < width * height"
    if "\<not> out_of_bounds width height nx ny" for nx ny
  proof -
    from that have b: "0 \<le> nx" "nx < int width" "0 \<le> ny" "ny < int height"
      by (auto simp: out_of_bounds_def)
    then have "ny + 1 \<le> int height" by simp
    then have "(ny + 1) * int width \<le> int height * int width"
      by (intro mult_right_mono) simp_all
    then have "ny * int width + nx < int height * int width"
      using b by (simp add: algebra_simps)
    moreover have "0 \<le> ny * int width + nx" using b by simp
    ultimately show ?thesis
      unfolding index_def by (simp add: nat_less_iff mult.commute)
  qed
  have step: "2 * card ({..< width * height} - fst (push_neighbour width height binary c vq d))
                + length (snd (push_neighbour width height binary c vq d))
              \<le> 2 * card ({..< width * height} - fst vq) + length (snd vq)"
    for vq d
  proof (cases "\<not> out_of_bounds width height (fst c + fst d) (snd c + snd d)
                \<and> binary ! index width (fst c + fst d) (snd c + snd d) = 1
                \<and> index width (fst c + fst d) (snd c + snd d) \<notin> fst vq")
    case True
    let ?n = "index width (fst c + fst d) (snd c + snd d)"
    from True idx have "?n \<in> {..< width * height} - fst vq" by simp
    then have "card ({..< width * height} - fst vq - {?n}) < card ({..< width * height} - fst vq)"
      by (intro card_Diff1_less) simp_all
    moreover have "{..< width * height} - insert ?n (fst vq) = {..< width * height} - fst vq - {?n}"
      by auto
    ultimately show ?thesis using True by (simp add: push_neighbour_def Let_def)
  next
    case False
    then show ?thesis by (auto simp: push_neighbour_def Let_def)
  qed
  have fold: "2 * card ({..< width * height} - fst (foldl (push_neighbour width height binary c) vq ds))
                + length (snd (foldl (push_neighbour width height binary c) vq ds))
              \<le> 2 * card ({..< width * height} - fst vq) + length (snd vq)"
    for vq ds
  proof (induction ds arbitrary: vq)
    case Nil
    show ?case by simp
  next
    case (Cons d ds)
    from Cons[of "push_neighbour width height binary c vq d"] step[of vq d]
    show ?case by simp
  qed
  from fold[of "(visited, q)" dirs]
  show "((width, height, binary, fst (expand width height binary c (visited, q)),
          snd (expand width height binary c (visited, q)), pixels @ [c]),
         (width, height, binary, visited, c # q, pixels))
        \<in> measure (\<lambda>(width, height, binary, visited, q, pixels).
              2 * card ({..< width * height} - visited) + length q)"
    by (simp add: expand_def)
qed

subsection \<open>Steps 4 and 5: geometric features\<close>

text \<open>
  The loop over \<open>dirs\<close> that decides whether a region pixel is an edge pixel: a neighbour
  outside the image is skipped (\<open>continue\<close>), the first background neighbour inside the image
  ends the loop (\<open>break\<close>).  The same loop is the predicate of \<open>pixels.filter\<close> in step 5.
\<close>

fun edge_scan :: "nat \<Rightarrow> nat \<Rightarrow> nat list \<Rightarrow> pixel \<Rightarrow> (int \<times> int) list \<Rightarrow> bool" where
  "edge_scan width height binary p [] = False"
| "edge_scan width height binary p (d # ds) =
     (if out_of_bounds width height (fst p + fst d) (snd p + snd d)
      then edge_scan width height binary p ds
      else if binary ! index width (fst p + fst d) (snd p + snd d) = 0 then True
      else edge_scan width height binary p ds)"

text \<open>\<open>let perimeter = 0; for (p of pixels) { ...; if (edge) perimeter++; }\<close>\<close>

definition region_perimeter :: "nat \<Rightarrow> nat \<Rightarrow> nat list \<Rightarrow> pixel list \<Rightarrow> nat" where
  "region_perimeter width height binary pixels =
     foldl (\<lambda>perimeter p. if edge_scan width height binary p dirs then perimeter + 1 else perimeter)
       0 pixels"

definition region_boundary :: "nat \<Rightarrow> nat \<Rightarrow> nat list \<Rightarrow> pixel list \<Rightarrow> pixel list" where
  "region_boundary width height binary pixels =
     filter (\<lambda>p. edge_scan width height binary p dirs) pixels"

text \<open>The body of the corner loop for the sample at \<open>i\<close>.\<close>

definition corner_at :: "pixel list \<Rightarrow> nat \<Rightarrow> bool" where
  "corner_at boundary i =
     (let p1 = boundary ! i;
          p2 = boundary ! ((i + 1) mod length boundary);
          p3 = boundary ! ((i + 2) mod length boundary);
          v1 = (fst p2 - fst p1, snd p2 - snd p1);
          v2 = (fst p3 - fst p2, snd p3 - snd p2);
          dot = real_of_int (fst v1 * fst v2 + snd v1 * snd v2);
          mag = sqrt (real_of_int (fst v1 * fst v1 + snd v1 * snd v1))
                  * sqrt (real_of_int (fst v2 * fst v2 + snd v2 * snd v2));
          angle = arccos (max (-1) (min 1 (dot / (mag + 1/1000000))))
      in angle > pi / 4 \<and> angle < (3 * pi) / 4)"

text \<open>\<open>for (let i = 0; i < boundary.length; i += Math.floor(boundary.length / 20) + 1)\<close>\<close>

function count_corners :: "pixel list \<Rightarrow> nat \<Rightarrow> nat \<Rightarrow> nat" where
  "count_corners boundary i corners =
     (if i < length boundary
      then count_corners boundary (i + (length boundary div 20 + 1))
             (if corner_at boundary i then corners + 1 else corners)
      else corners)"
  by pat_completeness auto
termination
  by (relation "measure (\<lambda>(boundary, i, corners). length boundary - i)") auto

text \<open>
  The values computed for a region before it is filtered and classified.  The bounding
  box keeps the integers \<open>minX\<close>, \<open>minY\<close>, \<open>maxX - minX\<close> and \<open>maxY - minY\<close>.
\<close>

record ShapeFeatures =
  f_area :: nat
  f_minX :: int
  f_minY :: int
  f_maxX :: int
  f_maxY :: int
  f_perimeter :: nat
  f_circularity :: real
  f_corners :: nat
  f_fillRatio :: real
  f_aspectRatio :: real
  f_thinness :: real

definition bbox_width :: "ShapeFeatures \<Rightarrow> int" where
  "bbox_width f = f_maxX f - f_minX f"

definition bbox_height :: "ShapeFeatures \<Rightarrow> int" where
  "bbox_height f = f_maxY f - f_minY f"

definition region_features :: "nat \<Rightarrow> nat \<Rightarrow> nat list \<Rightarrow> pixel list \<Rightarrow> ShapeFeatures" where
  "region_features width height binary pixels =
     (let xs = map fst pixels;
          ys = map snd pixels;
          minX = Min (set xs); maxX = Max (set xs);
          minY = Min (set ys); maxY = Max (set ys);
          area = length pixels;
          bw = maxX - minX;
          bh = maxY - minY;
          perimeter = region_perimeter width height binary pixels;
          circularity = (4 * pi * real area) / (real (perimeter * perimeter) + 1/1000000);
          boundary = region_boundary width height binary pixels;
          corners = count_corners boundary 0 0;
          bboxArea = bw * bh;
          fillRatio = real area / (real_of_int bboxArea + 1/1000000);
          aspectRatio = real_of_int (max bw bh) / real_of_int (max 1 (min bw bh));
          thinness = real perimeter / real (area + 1)
      in \<lparr>f_area = area, f_minX = minX, f_minY = minY, f_maxX = maxX, f_maxY = maxY,
          f_perimeter = perimeter, f_circularity = circularity, f_corners = corners,
          f_fillRatio = fillRatio, f_aspectRatio = aspectRatio, f_thinness = thinness\<rparr>)"

subsection \<open>Step 6: rejection of noise\<close>

definition rejected :: "ShapeFeatures \<Rightarrow> bool" where
  "rejected f \<longleftrightarrow>
     f_area f < 300 \<or> f_fillRatio f < 2/10 \<or> f_aspectRatio f > 4 \<or> f_thinness f > 1/2"

subsection \<open>Step 7: classification\<close>

text \<open>
  \<open>bbox.width / bbox.height\<close>: a division by 0 gives \<open>Infinity\<close> or \<open>NaN\<close> in the source,
  \<^const>\<open>None\<close> here; neither is less than 1.2.
\<close>

definition bbox_ratio :: "ShapeFeatures \<Rightarrow> real option" where
  "bbox_ratio f =
     (if bbox_height f = 0 then None
      else Some (real_of_int (bbox_width f) / real_of_int (bbox_height f)))"

definition classify :: "ShapeFeatures \<Rightarrow> ShapeType \<times> real" where
  "classify f =
     (if f_circularity f > 75/100 then (Circle, f_circularity f)
      else if f_corners f \<le> 4 then (Triangle, 9/10)
      else if f_corners f \<le> 6 then (Pentagon, 85/100)
      else (case bbox_ratio f of
              None \<Rightarrow> (Rectangle, 8/10)
            | Some ratio \<Rightarrow>
                if ratio < 12/10 \<and> f_circularity f < 4/10 then (Star, 8/10)
                else (Rectangle, 8/10)))"

text \<open>
  What happens to a region after the \<open>while\<close> loop: dropped (\<open>continue\<close>) when it has fewer
  than 40 pixels or is rejected in step 6, pushed to \<open>shapes\<close> otherwise.  In between,
  \<open>Math.min(...xs)\<close> passes one argument per pixel of the region; the call raises a
  \<open>RangeError\<close> when these are more than the engine accepts.  That number differs between
  engines and is the parameter \<open>maxArguments\<close>.
\<close>

definition analyse_region ::
  "nat \<Rightarrow> nat \<Rightarrow> nat \<Rightarrow> nat list \<Rightarrow> pixel list \<Rightarrow> js_error + DetectedShape option" where
  "analyse_region maxArguments width height binary pixels =
     (if length pixels < 40 then Inr None
      else if maxArguments < length pixels then Inl RangeError
      else (let f = region_features width height binary pixels
            in if rejected f then Inr None
               else Inr (Some \<lparr>shape_type = fst (classify f),
                          confidence = snd (classify f),
                          boundingBox = \<lparr>box_x = real_of_int (f_minX f),
                                         box_y = real_of_int (f_minY f),
                                         box_width = real_of_int (bbox_width f),
                                         box_height = real_of_int (bbox_height f)\<rparr>,
                          center = \<lparr>pt_x = real_of_int (f_minX f + f_maxX f) / 2,
                                    pt_y = real_of_int (f_minY f + f_maxY f) / 2\<rparr>,
                          area = real (f_area f)\<rparr>)))"

subsection \<open>The scan over the image\<close>

text \<open>
  The body of the two nested \<open>for\<close> loops at the pixel \<open>(x, y)\<close>, on the pair of \<open>visited\<close>
  and \<open>shapes\<close>; an exception of the body ends the scan.
\<close>

definition scan_pixel ::
  "nat \<Rightarrow> nat \<Rightarrow> nat \<Rightarrow> nat list \<Rightarrow> nat set \<times> DetectedShape list \<Rightarrow> pixel
     \<Rightarrow> js_error + nat set \<times> DetectedShape list" where
  "scan_pixel maxArguments width height binary vs p =
     (let idx = index width (fst p) (snd p)
      in if binary ! idx = 0 \<or> idx \<in> fst vs then Inr vs
         else (let r = flood width height binary (insert idx (fst vs)) [p] []
               in case analyse_region maxArguments width height binary (snd r) of
                    Inl e \<Rightarrow> Inl e
                  | Inr None \<Rightarrow> Inr (fst r, snd vs)
                  | Inr (Some s) \<Rightarrow> Inr (fst r, snd vs @ [s])))"

fun scan_loop ::
  "nat \<Rightarrow> nat \<Rightarrow> nat \<Rightarrow> nat list \<Rightarrow> nat set \<times> DetectedShape list \<Rightarrow> pixel list
     \<Rightarrow> js_error + nat set \<times> DetectedShape list" where
  "scan_loop maxArguments width height binary vs [] = Inr vs"
| "scan_loop maxArguments width height binary vs (p # ps) =
     (case scan_pixel maxArguments width height binary vs p of
        Inl e \<Rightarrow> Inl e
      | Inr vs' \<Rightarrow> scan_loop maxArguments width height binary vs' ps)"

text \<open>The pixels in the order of \<open>for (y ...) for (x ...)\<close>.\<close>

definition scan_order :: "nat \<Rightarrow> nat \<Rightarrow> pixel list" where
  "scan_order width height =
     concat (map (\<lambda>y. map (\<lambda>x. (int x, int y)) [0 ..< width]) [0 ..< height])"

definition detect_regions ::
  "nat \<Rightarrow> nat \<Rightarrow> nat \<Rightarrow> nat list \<Rightarrow> js_error + nat set \<times> DetectedShape list" where
  "detect_regions maxArguments width height binary =
     scan_loop maxArguments width height binary ({}, []) (scan_order width height)"

text \<open>
  \<open>detectShapes\<close> is an \<open>async\<close> function: its promise is rejected (\<^const>\<open>Inl\<close>) when the
  body throws and fulfilled (\<^const>\<open>Inr\<close>) with the returned value otherwise.  The body has
  no \<open>throw\<close> and no check of its argument; the one operation in it that can raise is the
  call \<open>Math.min(...xs)\<close>.  The typed arrays are taken to be allocated: the length an engine
  allows for them is far above the number of arguments it accepts.  The two readings of
  \<open>performance.now()\<close> are parameters.
\<close>

definition detectShapes ::
  "nat \<Rightarrow> real \<Rightarrow> real \<Rightarrow> ImageData \<Rightarrow> js_error + DetectionResult" where
  "detectShapes maxArguments startTime endTime imageData =
     (let width = img_width imageData;
          height = img_height imageData;
          gray = grayscale imageData;
          binary = binarize gray
      in case detect_regions maxArguments width height binary of
           Inl e \<Rightarrow> Inl e
         | Inr vs \<Rightarrow>
             Inr \<lparr>shapes = snd vs, processingTime = endTime - startTime,
                  imageWidth = width, imageHeight = height\<rparr>)"

subsection \<open>Vocabulary for the regions\<close>

definition pixel_index :: "nat \<Rightarrow> pixel \<Rightarrow> nat" where
  "pixel_index width p = index width (fst p) (snd p)"

text \<open>A pixel inside the image whose mask entry is 1.\<close>

definition fg_pixel :: "nat \<Rightarrow> nat \<Rightarrow> nat list \<Rightarrow> pixel \<Rightarrow> bool" where
  "fg_pixel width height binary p \<longleftrightarrow>
     \<not> out_of_bounds width height (fst p) (snd p) \<and> binary ! pixel_index width p = 1"

definition shift :: "pixel \<Rightarrow> int \<times> int \<Rightarrow> pixel" where
  "shift p d = (fst p + fst d, snd p + snd d)"

text \<open>A pixel with a background neighbour inside the image.\<close>

definition inner_edge_pixel :: "nat \<Rightarrow> nat \<Rightarrow> nat list \<Rightarrow> pixel \<Rightarrow> bool" where
  "inner_edge_pixel width height binary p \<longleftrightarrow>
     (\<exists>d\<in>set dirs. \<not> out_of_bounds width height (fst (shift p d)) (snd (shift p d))
        \<and> binary ! pixel_index width (shift p d) = 0)"

subsection \<open>An example image\<close>

text \<open>
  An image of the given width and height whose columns \<open>0, \<dots>, a - 1\<close> are black and whose
  other columns are white; the mask with 1 on the black columns; the pixels of the black
  block.  The example image is 24 wide and 25 high with 12 black columns, so that the block
  of 300 pixels touches three borders of the image.
\<close>

definition block_image :: "nat \<Rightarrow> nat \<Rightarrow> nat \<Rightarrow> ImageData" where
  "block_image W H a =
     \<lparr>img_width = W, img_height = H,
      img_data = concat (map (\<lambda>k. if k mod W < a then [0, 0, 0, 255] else [255, 255, 255, 255])
                           [0 ..< W * H])\<rparr>"

definition block_gray :: "nat \<Rightarrow> nat \<Rightarrow> nat \<Rightarrow> nat list" where
  "block_gray W H a = map (\<lambda>k. if k mod W < a then 0 else 255) [0 ..< W * H]"

definition block_mask :: "nat \<Rightarrow> nat \<Rightarrow> nat \<Rightarrow> nat list" where
  "block_mask W H a = map (\<lambda>k. if k mod W < a then 1 else 0) [0 ..< W * H]"

definition block :: "nat \<Rightarrow> nat \<Rightarrow> pixel set" where
  "block a H = {0 ..< int a} \<times> {0 ..< int H}"

definition example_image :: ImageData where
  "example_image = block_image 24 25 12"

text \<open>
  The region the scan finds at the first pixel of the example image, and the shape
  reported for it.
\<close>

definition example_region :: "pixel list" where
  "example_region = snd (flood 24 25 (block_mask 24 25 12) {index 24 0 0} [(0, 0)] [])"

definition example_shape :: DetectedShape where
  "example_shape =
     \<lparr>shape_type = Circle, confidence = 4 * pi * 300 / (625 + 1/1000000),
      boundingBox = \<lparr>box_x = 0, box_y = 0, box_width = 11, box_height = 24\<rparr>,
      center = \<lparr>pt_x = 11/2, pt_y = 12\<rparr>, area = 300\<rparr>"

subsection \<open>The perimeter in the words of the specification\<close>

text \<open>
  A region pixel is a boundary pixel when at least one of its 8 neighbours is outside the
  region or outside the image; the perimeter is the number of boundary pixels.
\<close>

definition spec_boundary_pixel :: "nat \<Rightarrow> nat \<Rightarrow> pixel list \<Rightarrow> pixel \<Rightarrow> bool" where
  "spec_boundary_pixel width height region p \<longleftrightarrow>
     (\<exists>d\<in>set dirs. shift p d \<notin> set region
        \<or> out_of_bounds width height (fst (shift p d)) (snd (shift p d)))"

definition spec_perimeter :: "nat \<Rightarrow> nat \<Rightarrow> pixel list \<Rightarrow> nat" where
  "spec_perimeter width height region =
     length (filter (spec_boundary_pixel width height region) region)"

section \<open>Rounding to a double\<close>

lemma round_half_even_int [simp]: "round_half_even (real_of_int k) = k"
  by (simp add: round_half_even_def)

lemma round_half_even_zero [simp]: "round_half_even 0 = 0"
  using round_half_even_int[of 0] by simp

lemma round_half_even_near: "\<bar>real_of_int (round_half_even v) - v\<bar> \<le> 1/2"
proof -
  define d where "d = v - real_of_int \<lfloor>v\<rfloor>"
  have d: "0 \<le> d" "d < 1" unfolding d_def by linarith+
  have v: "v = real_of_int \<lfloor>v\<rfloor> + d" by (simp add: d_def)
  consider "d < 1/2" | "d > 1/2" | "d = 1/2" by linarith
  then show ?thesis
  proof cases
    case 1
    then have "round_half_even v = \<lfloor>v\<rfloor>" by (simp add: round_half_even_def d_def)
    then show ?thesis using d 1 v by (auto simp: abs_if)
  next
    case 2
    then have "round_half_even v = \<lfloor>v\<rfloor> + 1" by (simp add: round_half_even_def d_def)
    then show ?thesis using d 2 v by (auto simp: abs_if)
  next
    case 3
    then have "round_half_even v = \<lfloor>v\<rfloor> \<or> round_half_even v = \<lfloor>v\<rfloor> + 1"
      by (simp add: round_half_even_def d_def)
    then show ?thesis using 3 v by (auto simp: abs_if)
  qed
qed

lemma round_half_even_nonneg: "0 \<le> v \<Longrightarrow> 0 \<le> round_half_even v"
  unfolding round_half_even_def by (auto simp: zero_le_floor intro: add_nonneg_nonneg)

lemma round_half_even_le_int:
  assumes "v \<le> real_of_int k"
  shows "round_half_even v \<le> k"
proof (cases "v = real_of_int k")
  case True
  then show ?thesis by simp
next
  case False
  with assms have "v < real_of_int k" by simp
  then have "\<lfloor>v\<rfloor> < k" by (simp add: floor_less_iff)
  then show ?thesis unfolding round_half_even_def by auto
qed

lemma round_half_even_small:
  assumes "\<bar>v\<bar> < 1/2"
  shows "round_half_even v = 0"
proof (cases "0 \<le> v")
  case True
  with assms have "\<lfloor>v\<rfloor> = 0" by (simp add: floor_eq_iff)
  then show ?thesis using assms True by (simp add: round_half_even_def)
next
  case False
  with assms have "\<lfloor>v\<rfloor> = - 1" by (simp add: floor_eq_iff)
  then show ?thesis using assms False by (simp add: round_half_even_def)
qed

lemma double_exponent_normal:
  assumes "2 powr real_of_int e \<le> \<bar>x\<bar>" "\<bar>x\<bar> < 2 powr (real_of_int e + 1)" "- 1022 \<le> e"
  shows "double_exponent x = e"
proof -
  have "0 < \<bar>x\<bar>" using assms(1) by (smt (verit) powr_gt_zero)
  then have "\<lfloor>log 2 \<bar>x\<bar>\<rfloor> = e"
    using assms(1,2) by (simp add: floor_log_eq_powr_iff)
  then show ?thesis using assms(3) by (simp add: double_exponent_def)
qed

lemma double_exponent_subnormal:
  assumes "x \<noteq> 0" "\<bar>x\<bar> < 2 powr (- 1022)"
  shows "double_exponent x = - 1022"
proof -
  have "log 2 \<bar>x\<bar> < - 1022"
    using assms by (simp add: log_less_iff)
  then have "\<lfloor>log 2 \<bar>x\<bar>\<rfloor> < - 1022" by linarith
  then show ?thesis by (simp add: double_exponent_def)
qed

lemma fl_normal:
  assumes "2 powr real_of_int e \<le> \<bar>x\<bar>" "\<bar>x\<bar> < 2 powr (real_of_int e + 1)" "- 1022 \<le> e"
  shows "fl x = real_of_int (round_half_even (x / 2 powr (real_of_int e - 52)))
                  * 2 powr (real_of_int e - 52)"
proof -
  have "x \<noteq> 0" using assms(1) by (smt (verit) powr_gt_zero)
  then show ?thesis
    by (simp add: fl_def ulp_def double_exponent_normal[OF assms])
qed

lemma fl_subnormal:
  assumes "\<bar>x\<bar> < 2 powr (- 1022)"
  shows "fl x = real_of_int (round_half_even (x / 2 powr (- 1074))) * 2 powr (- 1074)"
proof (cases "x = 0")
  case True
  then show ?thesis by (simp add: fl_def)
next
  case False
  then show ?thesis
    by (simp add: fl_def ulp_def double_exponent_subnormal[OF False assms])
qed

lemma fl_underflow:
  assumes "\<bar>x\<bar> < 2 powr (- 1075)"
  shows "fl x = 0"
proof -
  have "(2::real) powr (- 1075) \<le> 2 powr (- 1022)" by (intro powr_mono) simp_all
  with assms have s: "\<bar>x\<bar> < 2 powr (- 1022)" by linarith
  have "(2::real) powr (- 1075) = 2 powr (- 1074) / 2"
    using powr_add[of "2::real" "- 1075" 1] by simp
  with assms have "\<bar>x\<bar> < 2 powr (- 1074) / 2" by simp
  then have "\<bar>x / 2 powr (- 1074)\<bar> < 1/2"
    by (simp add: abs_divide divide_less_eq)
  then have "round_half_even (x / 2 powr (- 1074)) = 0" by (rule round_half_even_small)
  then show ?thesis unfolding fl_subnormal[OF s] by simp
qed

lemma fl_zero [simp]: "fl 0 = 0"
  by (simp add: fl_def)

lemma double_exponent_bounds:
  assumes "x \<noteq> 0"
  shows "\<bar>x\<bar> < 2 powr (real_of_int (double_exponent x) + 1)"
proof -
  have p: "0 < \<bar>x\<bar>" using assms by simp
  have "log 2 \<bar>x\<bar> < real_of_int \<lfloor>log 2 \<bar>x\<bar>\<rfloor> + 1" by linarith
  also have "\<dots> \<le> real_of_int (double_exponent x) + 1" by (simp add: double_exponent_def)
  finally show ?thesis using p by (simp add: log_less_iff)
qed

lemma fl_error: "\<bar>fl x - x\<bar> \<le> ulp x / 2"
proof (cases "x = 0")
  case True
  then show ?thesis by (simp add: ulp_def)
next
  case False
  have u: "0 < ulp x" by (simp add: ulp_def)
  have "fl x - x = (real_of_int (round_half_even (x / ulp x)) - x / ulp x) * ulp x"
    using False u by (simp add: fl_def algebra_simps)
  then have "\<bar>fl x - x\<bar> = \<bar>real_of_int (round_half_even (x / ulp x)) - x / ulp x\<bar> * ulp x"
    using u by (simp add: abs_mult)
  also have "\<dots> \<le> 1/2 * ulp x"
    using round_half_even_near[of "x / ulp x"] u by (intro mult_right_mono) simp_all
  finally show ?thesis by simp
qed

text \<open>The error of one rounding below a power of two.\<close>

lemma fl_error_below:
  assumes "\<bar>x\<bar> < 2 powr real_of_int k" "- 1021 \<le> k"
  shows "\<bar>fl x - x\<bar> \<le> 2 powr (real_of_int k - 54)"
proof (cases "x = 0")
  case True
  then show ?thesis by simp
next
  case False
  have "\<lfloor>log 2 \<bar>x\<bar>\<rfloor> < k"
  proof -
    have "log 2 \<bar>x\<bar> < real_of_int k" using assms(1) False by (simp add: log_less_iff)
    then show ?thesis by linarith
  qed
  then have "double_exponent x \<le> k - 1" using assms(2) by (simp add: double_exponent_def)
  then have "ulp x \<le> 2 powr (real_of_int (k - 1) - 52)"
    unfolding ulp_def by (intro powr_mono) simp_all
  also have "\<dots> = 2 powr (real_of_int k - 54) * 2"
    using powr_add[of "2::real" "real_of_int k - 54" 1] by (simp add: algebra_simps)
  finally show ?thesis using fl_error[of x] by linarith
qed

lemma fl_int:
  assumes "\<bar>n\<bar> \<le> 2 ^ 53"
  shows "fl (real_of_int n) = real_of_int n"
proof (cases "n = 0")
  case True
  then show ?thesis by simp
next
  case False
  let ?x = "real_of_int n"
  define e where "e = \<lfloor>log 2 \<bar>?x\<bar>\<rfloor>"
  have pos: "0 < \<bar>?x\<bar>" using False by simp
  have one: "1 \<le> \<bar>?x\<bar>" using False by (simp add: of_int_abs [symmetric] del: of_int_abs)
  have b: "2 powr real_of_int e \<le> \<bar>?x\<bar>" "\<bar>?x\<bar> < 2 powr (real_of_int e + 1)"
    using floor_log_eq_powr_iff[of "\<bar>?x\<bar>" 2 e] pos by (simp_all add: e_def)
  have e0: "0 \<le> e" unfolding e_def using one by (simp add: zero_le_log_cancel_iff)
  have le: "\<bar>?x\<bar> \<le> 2 powr 53"
  proof -
    have "real_of_int \<bar>n\<bar> \<le> real_of_int (2 ^ 53)" using assms by (simp only: of_int_le_iff)
    then show ?thesis by simp
  qed
  have e53: "e \<le> 53"
  proof -
    have l: "2 powr real_of_int e \<le> 2 powr 53" using b(1) le by linarith
    show ?thesis
    proof (rule ccontr)
      assume "\<not> e \<le> 53"
      then have "(53::real) < real_of_int e" by simp
      then have "(2::real) powr 53 < 2 powr real_of_int e" by (intro powr_less_mono) simp_all
      with l show False by linarith
    qed
  qed
  have fl: "fl ?x = real_of_int (round_half_even (?x / 2 powr (real_of_int e - 52)))
                  * 2 powr (real_of_int e - 52)"
    by (rule fl_normal[OF b]) (use e0 in simp)
  show ?thesis
  proof (cases "e \<le> 52")
    case True
    define k where "k = nat (52 - e)"
    have p: "(2::real) powr (real_of_int e - 52) = 1 / 2 ^ k"
    proof -
      have "real_of_int e - 52 = - real k" using True by (simp add: k_def)
      then have "(2::real) powr (real_of_int e - 52) = 2 powr (- real k)" by (simp only:)
      also have "\<dots> = 1 / 2 powr real k" by (rule powr_minus_divide)
      also have "(2::real) powr real k = 2 ^ k" by (simp add: powr_realpow)
      finally show ?thesis .
    qed
    have "?x / 2 powr (real_of_int e - 52) = real_of_int (n * 2 ^ k)"
      unfolding p by simp
    then have "round_half_even (?x / 2 powr (real_of_int e - 52)) = n * 2 ^ k"
      by (simp only: round_half_even_int)
    then show ?thesis unfolding fl p by simp
  next
    case False
    with e53 have e: "e = 53" by simp
    have "\<bar>?x\<bar> = 2 powr 53" using b(1) le e by simp
    then have n: "\<bar>?x\<bar> = real_of_int (2 ^ 53)" by simp
    have p: "(2::real) powr (real_of_int e - 52) = 2" unfolding e by simp
    have "?x / 2 = real_of_int (n div 2)"
    proof -
      have "\<bar>n\<bar> = 2 ^ 53" using n by (simp only: of_int_abs [symmetric] of_int_eq_iff)
      then have "even n" by (metis even_abs_add_iff even_add even_numeral even_power zero_less_numeral)
      then show ?thesis by (simp add: real_of_int_div)
    qed
    then have "round_half_even (?x / 2 powr (real_of_int e - 52)) = n div 2"
      unfolding p by (simp only: round_half_even_int)
    moreover have "real_of_int (n div 2) * 2 = ?x"
      using \<open>?x / 2 = real_of_int (n div 2)\<close> by simp
    ultimately show ?thesis unfolding fl p by simp
  qed
qed

lemma fl_Ints:
  assumes "v \<in> \<int>" "\<bar>v\<bar> \<le> 2 ^ 53"
  shows "fl v = v"
proof -
  from assms(1) obtain n where n: "v = real_of_int n" by (auto elim: Ints_cases)
  have "real_of_int \<bar>n\<bar> \<le> real_of_int (2 ^ 53)" using assms(2) n by simp
  then have "\<bar>n\<bar> \<le> 2 ^ 53" by (simp only: of_int_le_iff)
  from fl_int[OF this] n show ?thesis by simp
qed

lemma fl_unit_range:
  assumes "0 \<le> q" "q \<le> 1"
  shows "0 \<le> fl q \<and> fl q \<le> 1"
proof (cases "q = 0")
  case True
  then show ?thesis by simp
next
  case False
  with assms have pos: "0 < q" by simp
  let ?E = "double_exponent q"
  have u: "0 < ulp q" by (simp add: ulp_def)
  have nonneg: "0 \<le> fl q"
    using round_half_even_nonneg[of "q / ulp q"] pos u False by (simp add: fl_def)
  have "log 2 q \<le> 0" using pos assms(2) by (simp add: log_le_zero_cancel_iff)
  then have "\<lfloor>log 2 \<bar>q\<bar>\<rfloor> \<le> 0" using pos by (simp add: floor_le_zero)
  then have E0: "?E \<le> 0" by (simp add: double_exponent_def)
  show ?thesis
  proof (cases "?E = 0")
    case True
    have "2 powr 0 \<le> \<bar>q\<bar>"
    proof -
      from True have "\<lfloor>log 2 \<bar>q\<bar>\<rfloor> = 0" by (auto simp: double_exponent_def max_def split: if_splits)
      then have "0 \<le> log 2 \<bar>q\<bar>" by linarith
      then show ?thesis using pos by (simp add: zero_le_log_cancel_iff)
    qed
    with assms pos have "q = 1" by simp
    have "fl 1 = 1" using fl_int[of 1] by simp
    with \<open>q = 1\<close> show ?thesis by simp
  next
    case False
    with E0 have E: "?E \<le> - 1" by simp
    have lt: "q < 2 powr (real_of_int ?E + 1)"
      using double_exponent_bounds[of q] pos by simp
    have "q / ulp q < 2 powr (real_of_int ?E + 1) / ulp q"
      using lt u by (simp add: divide_strict_right_mono)
    also have "\<dots> = 2 powr 53"
      unfolding ulp_def by (simp add: powr_diff [symmetric])
    also have "\<dots> = real_of_int (2 ^ 53)" by simp
    finally have "round_half_even (q / ulp q) \<le> 2 ^ 53"
      by (intro round_half_even_le_int) simp
    then have "real_of_int (round_half_even (q / ulp q)) \<le> 2 powr 53"
      by (simp add: of_int_le_iff [symmetric] del: of_int_le_iff)
    then have "fl q \<le> 2 powr 53 * ulp q"
      using u pos by (simp add: fl_def mult_right_mono)
    also have "\<dots> = 2 powr (53 + (real_of_int ?E - 52))"
      unfolding ulp_def by (simp only: powr_add)
    also have "\<dots> = 2 powr (real_of_int ?E + 1)" by (simp add: ac_simps)
    also have "\<dots> \<le> 2 powr 0" using E by (intro powr_mono) simp_all
    finally show ?thesis using nonneg by simp
  qed
qed

lemma fl_pow2:
  assumes "- 1022 \<le> k"
  shows "fl (2 powr real_of_int k) = 2 powr real_of_int k"
proof -
  have b: "2 powr real_of_int k \<le> \<bar>2 powr real_of_int k\<bar>"
    "\<bar>2 powr real_of_int k\<bar> < 2 powr (real_of_int k + 1)"
    by (simp_all add: powr_less_cancel_iff)
  have q: "2 powr real_of_int k / 2 powr (real_of_int k - 52) = (2::real) powr 52"
    by (simp add: powr_diff [symmetric])
  have i: "(2::real) powr 52 = real_of_int (2 ^ 52)" by simp
  have "round_half_even (2 powr real_of_int k / 2 powr (real_of_int k - 52)) = 2 ^ 52"
    unfolding q i by (simp only: round_half_even_int)
  then have "fl (2 powr real_of_int k) = 2 powr 52 * 2 powr (real_of_int k - 52)"
    unfolding fl_normal[OF b assms] i by simp
  also have "\<dots> = 2 powr (52 + (real_of_int k - 52))" by (simp only: powr_add)
  also have "\<dots> = 2 powr real_of_int k" by simp
  finally show ?thesis .
qed


lemma round_half_even_ge_int:
  assumes "real_of_int k \<le> v"
  shows "k \<le> round_half_even v"
proof -
  from assms have "k \<le> \<lfloor>v\<rfloor>" by (simp add: le_floor_iff)
  then show ?thesis unfolding round_half_even_def by auto
qed

text \<open>
  Rounding does not cross a double: a double above \<open>x\<close> is above the rounding of \<open>x\<close>.  A
  double with at least the exponent of \<open>x\<close> is a multiple of the spacing at \<open>x\<close>; a double
  with a smaller exponent is smaller in magnitude than the power of two below \<open>\<bar>x\<bar>\<close>.
\<close>

lemma double_exponent_ge: "- 1022 \<le> double_exponent x"
  by (simp add: double_exponent_def)

lemma double_exponent_normal_le:
  assumes "- 1022 < double_exponent x" "x \<noteq> 0"
  shows "2 powr real_of_int (double_exponent x) \<le> \<bar>x\<bar>"
proof -
  from assms(1) have e: "double_exponent x = \<lfloor>log 2 \<bar>x\<bar>\<rfloor>"
    by (auto simp: double_exponent_def max_def split: if_splits)
  have "real_of_int \<lfloor>log 2 \<bar>x\<bar>\<rfloor> \<le> log 2 \<bar>x\<bar>" by linarith
  then have "2 powr real_of_int \<lfloor>log 2 \<bar>x\<bar>\<rfloor> \<le> 2 powr log 2 \<bar>x\<bar>"
    by (intro powr_mono) simp_all
  also have "\<dots> = \<bar>x\<bar>" using assms(2) by simp
  finally show ?thesis unfolding e .
qed

lemma ulp_multiple:
  assumes "fl d = d" "double_exponent x \<le> double_exponent d"
  shows "\<exists>k. d = real_of_int k * ulp x"
proof (cases "d = 0")
  case True
  then show ?thesis by (intro exI[of _ 0]) simp
next
  case False
  define n where "n = nat (double_exponent d - double_exponent x)"
  have n: "real_of_int (double_exponent d) = real_of_int (double_exponent x) + real n"
    using assms(2) by (simp add: n_def)
  have "ulp d = 2 powr (real_of_int (double_exponent x) - 52 + real n)"
    unfolding ulp_def n by (simp add: algebra_simps)
  also have "\<dots> = ulp x * 2 powr real n" unfolding ulp_def by (simp only: powr_add)
  also have "(2::real) powr real n = 2 ^ n" by (simp add: powr_realpow)
  finally have u: "ulp d = ulp x * 2 ^ n" .
  define r where "r = round_half_even (d / ulp d)"
  have "d = real_of_int r * ulp d"
    using assms(1) False by (simp add: fl_def r_def)
  also have "\<dots> = real_of_int r * (ulp x * 2 ^ n)" by (simp only: u)
  also have "\<dots> = real_of_int (r * 2 ^ n) * ulp x" by simp
  finally show ?thesis by blast
qed

lemma fl_le_double:
  assumes d: "fl d = d" and le: "x \<le> d"
  shows "fl x \<le> d"
proof (cases "x = 0")
  case True
  with le show ?thesis by simp
next
  case False
  have u: "0 < ulp x" by (simp add: ulp_def)
  have flx: "fl x = real_of_int (round_half_even (x / ulp x)) * ulp x"
    using False by (simp add: fl_def)
  have mult: "fl x \<le> real_of_int k * ulp x" if "x \<le> real_of_int k * ulp x" for k
  proof -
    from that u have "x / ulp x \<le> real_of_int k" by (simp add: divide_le_eq)
    then have "round_half_even (x / ulp x) \<le> k" by (rule round_half_even_le_int)
    then have "real_of_int (round_half_even (x / ulp x)) \<le> real_of_int k" by simp
    then show ?thesis unfolding flx using u by (simp add: mult_right_mono)
  qed
  show ?thesis
  proof (cases "double_exponent x \<le> double_exponent d")
    case True
    from ulp_multiple[OF d True] obtain k where k: "d = real_of_int k * ulp x" by blast
    from mult[of k] le k show ?thesis by simp
  next
    case False
    then have lt: "double_exponent d < double_exponent x" by simp
    with double_exponent_ge[of d] have "- 1022 < double_exponent x" by linarith
    from double_exponent_normal_le[OF this \<open>x \<noteq> 0\<close>]
    have big: "2 powr real_of_int (double_exponent x) \<le> \<bar>x\<bar>" .
    have small: "\<bar>d\<bar> < 2 powr real_of_int (double_exponent x)"
    proof (cases "d = 0")
      case True
      then show ?thesis by simp
    next
      case False
      have "\<bar>d\<bar> < 2 powr (real_of_int (double_exponent d) + 1)"
        by (rule double_exponent_bounds[OF False])
      also have "\<dots> \<le> 2 powr real_of_int (double_exponent x)"
        using lt by (intro powr_mono) simp_all
      finally show ?thesis .
    qed
    from big small le have neg: "x \<le> - (2 powr real_of_int (double_exponent x))"
      by (simp add: abs_if split: if_splits)
    have p: "2 powr real_of_int (double_exponent x) = real_of_int (2 ^ 52) * ulp x"
    proof -
      have "real_of_int (2 ^ 52) * ulp x = 2 powr 52 * 2 powr (real_of_int (double_exponent x) - 52)"
        by (simp add: ulp_def)
      also have "\<dots> = 2 powr (52 + (real_of_int (double_exponent x) - 52))"
        by (simp only: powr_add)
      finally show ?thesis by simp
    qed
    have "x \<le> real_of_int (- (2 ^ 52)) * ulp x" using neg p by simp
    from mult[OF this] have "fl x \<le> - (2 powr real_of_int (double_exponent x))"
      using p by simp
    with small show ?thesis by (simp add: abs_if split: if_splits)
  qed
qed

lemma fl_ge_double:
  assumes d: "fl d = d" and le: "d \<le> x"
  shows "d \<le> fl x"
proof (cases "x = 0")
  case True
  with le show ?thesis by simp
next
  case False
  have u: "0 < ulp x" by (simp add: ulp_def)
  have flx: "fl x = real_of_int (round_half_even (x / ulp x)) * ulp x"
    using False by (simp add: fl_def)
  have mult: "real_of_int k * ulp x \<le> fl x" if "real_of_int k * ulp x \<le> x" for k
  proof -
    from that u have "real_of_int k \<le> x / ulp x" by (simp add: le_divide_eq)
    then have "k \<le> round_half_even (x / ulp x)" by (rule round_half_even_ge_int)
    then have "real_of_int k \<le> real_of_int (round_half_even (x / ulp x))" by simp
    then show ?thesis unfolding flx using u by (simp add: mult_right_mono)
  qed
  show ?thesis
  proof (cases "double_exponent x \<le> double_exponent d")
    case True
    from ulp_multiple[OF d True] obtain k where k: "d = real_of_int k * ulp x" by blast
    from mult[of k] le k show ?thesis by simp
  next
    case False
    then have lt: "double_exponent d < double_exponent x" by simp
    with double_exponent_ge[of d] have "- 1022 < double_exponent x" by linarith
    from double_exponent_normal_le[OF this \<open>x \<noteq> 0\<close>]
    have big: "2 powr real_of_int (double_exponent x) \<le> \<bar>x\<bar>" .
    have small: "\<bar>d\<bar> < 2 powr real_of_int (double_exponent x)"
    proof (cases "d = 0")
      case True
      then show ?thesis by simp
    next
      case False
      have "\<bar>d\<bar> < 2 powr (real_of_int (double_exponent d) + 1)"
        by (rule double_exponent_bounds[OF False])
      also have "\<dots> \<le> 2 powr real_of_int (double_exponent x)"
        using lt by (intro powr_mono) simp_all
      finally show ?thesis .
    qed
    from big small le have pos: "2 powr real_of_int (double_exponent x) \<le> x"
      by (simp add: abs_if split: if_splits)
    have p: "2 powr real_of_int (double_exponent x) = real_of_int (2 ^ 52) * ulp x"
    proof -
      have "real_of_int (2 ^ 52) * ulp x = 2 powr 52 * 2 powr (real_of_int (double_exponent x) - 52)"
        by (simp add: ulp_def)
      also have "\<dots> = 2 powr (52 + (real_of_int (double_exponent x) - 52))"
        by (simp only: powr_add)
      finally show ?thesis by simp
    qed
    have "real_of_int (2 ^ 52) * ulp x \<le> x" using pos p by simp
    from mult[OF this] have "2 powr real_of_int (double_exponent x) \<le> fl x"
      using p by simp
    with small show ?thesis by (simp add: abs_if split: if_splits)
  qed
qed

subsection \<open>Evaluating a rounding\<close>

lemma round_half_even_unique:
  assumes "\<bar>v - real_of_int m\<bar> < 1/2"
  shows "round_half_even v = m"
proof -
  have "\<bar>real_of_int (round_half_even v) - real_of_int m\<bar> < 1"
    using round_half_even_near[of v] assms by linarith
  then have "\<bar>real_of_int (round_half_even v - m)\<bar> < 1" by simp
  then have "\<bar>round_half_even v - m\<bar> < 1" by (simp only: of_int_abs [symmetric] of_int_less_1_iff)
  then show ?thesis by simp
qed

lemma round_half_even_tie:
  assumes "v = real_of_int k + 1/2"
  shows "round_half_even v = (if even k then k else k + 1)"
proof -
  have "\<lfloor>v\<rfloor> = k" unfolding assms by (simp add: floor_eq_iff)
  then show ?thesis by (simp add: round_half_even_def assms)
qed

lemma fl_eval:
  assumes "2 powr real_of_int e \<le> \<bar>x\<bar>" "\<bar>x\<bar> < 2 powr (real_of_int e + 1)" "- 1022 \<le> e"
    and "\<bar>x / 2 powr (real_of_int e - 52) - real_of_int m\<bar> < 1/2"
  shows "fl x = real_of_int m * 2 powr (real_of_int e - 52)"
  unfolding fl_normal[OF assms(1-3)] round_half_even_unique[OF assms(4)] ..

lemma fl_eval_tie:
  assumes "2 powr real_of_int e \<le> \<bar>x\<bar>" "\<bar>x\<bar> < 2 powr (real_of_int e + 1)" "- 1022 \<le> e"
    and "x / 2 powr (real_of_int e - 52) = real_of_int k + 1/2"
  shows "fl x = real_of_int (if even k then k else k + 1) * 2 powr (real_of_int e - 52)"
  unfolding fl_normal[OF assms(1-3)] round_half_even_tie[OF assms(4)] ..

text \<open>The same with the spacing written as \<open>1 / 2\<^sup>k\<close>, for numbers below \<open>2\<^sup>5\<^sup>3\<close>.\<close>

lemma spacing_powers:
  fixes k :: nat
  defines "e \<equiv> 52 - int k"
  shows "2 powr (real_of_int e - 52) = 1 / 2 ^ k"
    and "2 powr real_of_int e = 2 ^ 52 / 2 ^ k"
    and "2 powr (real_of_int e + 1) = 2 ^ 53 / 2 ^ k"
proof -
  have m: "real_of_int e - 52 = - real k" by (simp add: e_def)
  have "(2::real) powr (real_of_int e - 52) = 2 powr (- real k)" by (simp only: m)
  also have "\<dots> = 1 / 2 powr real k" by (rule powr_minus_divide)
  also have "(2::real) powr real k = 2 ^ k" by (simp add: powr_realpow)
  finally show p: "2 powr (real_of_int e - 52) = 1 / 2 ^ k" .
  have "(2::real) powr real_of_int e = 2 powr (52 + (real_of_int e - 52))" by simp
  also have "\<dots> = 2 powr 52 * 2 powr (real_of_int e - 52)" by (simp only: powr_add)
  finally show "2 powr real_of_int e = 2 ^ 52 / 2 ^ k" unfolding p by simp
  have "real_of_int e + 1 = 53 + (real_of_int e - 52)" by simp
  then have "(2::real) powr (real_of_int e + 1) = 2 powr (53 + (real_of_int e - 52))"
    by (simp only:)
  also have "\<dots> = 2 powr 53 * 2 powr (real_of_int e - 52)" by (simp only: powr_add)
  finally show "2 powr (real_of_int e + 1) = 2 ^ 53 / 2 ^ k" unfolding p by simp
qed

lemma fl_eval_frac:
  fixes k :: nat
  assumes "2 ^ 52 \<le> \<bar>x\<bar> * 2 ^ k" "\<bar>x\<bar> * 2 ^ k < 2 ^ 53" "k \<le> 1074"
    and "\<bar>x * 2 ^ k - real_of_int m\<bar> < 1/2"
  shows "fl x = real_of_int m / 2 ^ k"
proof -
  note p = spacing_powers[of k]
  have a: "2 powr real_of_int (52 - int k) \<le> \<bar>x\<bar>"
    unfolding p using assms(1) by (simp add: divide_le_eq)
  have b: "\<bar>x\<bar> < 2 powr (real_of_int (52 - int k) + 1)"
    unfolding p using assms(2) by (simp add: less_divide_eq)
  have c: "- 1022 \<le> 52 - int k" using assms(3) by simp
  have d: "\<bar>x / 2 powr (real_of_int (52 - int k) - 52) - real_of_int m\<bar> < 1/2"
    unfolding p using assms(4) by simp
  from fl_eval[OF a b c d] show ?thesis unfolding p by simp
qed

lemma fl_eval_frac_tie:
  fixes k :: nat
  assumes "2 ^ 52 \<le> \<bar>x\<bar> * 2 ^ k" "\<bar>x\<bar> * 2 ^ k < 2 ^ 53" "k \<le> 1074"
    and "x * 2 ^ k = real_of_int j + 1/2"
  shows "fl x = real_of_int (if even j then j else j + 1) / 2 ^ k"
proof -
  note p = spacing_powers[of k]
  have a: "2 powr real_of_int (52 - int k) \<le> \<bar>x\<bar>"
    unfolding p using assms(1) by (simp add: divide_le_eq)
  have b: "\<bar>x\<bar> < 2 powr (real_of_int (52 - int k) + 1)"
    unfolding p using assms(2) by (simp add: less_divide_eq)
  have c: "- 1022 \<le> 52 - int k" using assms(3) by simp
  have d: "x / 2 powr (real_of_int (52 - int k) - 52) = real_of_int j + 1/2"
    unfolding p using assms(4) by simp
  from fl_eval_tie[OF a b c d] show ?thesis unfolding p by simp
qed
section \<open>Properties of calculateIoU\<close>

lemma iou_spans_le:
  assumes "0 \<le> box_width box1" "0 \<le> box_width box2"
  shows "iou_x2 box1 box2 - iou_x1 box1 box2 \<le> box_width box1"
    and "iou_x2 box1 box2 - iou_x1 box1 box2 \<le> box_width box2"
  using assms by (auto simp: iou_x1_def iou_x2_def)

lemma iou_spans_le_y:
  assumes "0 \<le> box_height box1" "0 \<le> box_height box2"
  shows "iou_y2 box1 box2 - iou_y1 box1 box2 \<le> box_height box1"
    and "iou_y2 box1 box2 - iou_y1 box1 box2 \<le> box_height box2"
  using assms by (auto simp: iou_y1_def iou_y2_def)

lemma iou_intersection_bounds:
  assumes nn: "0 \<le> box_width box1" "0 \<le> box_height box1"
              "0 \<le> box_width box2" "0 \<le> box_height box2"
    and ov: "iou_x1 box1 box2 < iou_x2 box1 box2" "iou_y1 box1 box2 < iou_y2 box1 box2"
  shows "0 < iou_intersection box1 box2"
    and "iou_intersection box1 box2 \<le> box_width box1 * box_height box1"
    and "iou_intersection box1 box2 \<le> box_width box2 * box_height box2"
proof -
  let ?dx = "iou_x2 box1 box2 - iou_x1 box1 box2"
  let ?dy = "iou_y2 box1 box2 - iou_y1 box1 box2"
  have pos: "0 < ?dx" "0 < ?dy" using ov by simp_all
  show "0 < iou_intersection box1 box2"
    unfolding iou_intersection_def using pos by simp
  have "?dx * ?dy \<le> box_width box1 * box_height box1"
    using pos iou_spans_le(1)[OF nn(1) nn(3)] iou_spans_le_y(1)[OF nn(2) nn(4)]
    by (intro mult_mono) simp_all
  then show "iou_intersection box1 box2 \<le> box_width box1 * box_height box1"
    by (simp add: iou_intersection_def)
  have "?dx * ?dy \<le> box_width box2 * box_height box2"
    using pos iou_spans_le(2)[OF nn(1) nn(3)] iou_spans_le_y(2)[OF nn(2) nn(4)]
    by (intro mult_mono) simp_all
  then show "iou_intersection box1 box2 \<le> box_width box2 * box_height box2"
    by (simp add: iou_intersection_def)
qed

lemma iou_union_ge_intersection:
  assumes nn: "0 \<le> box_width box1" "0 \<le> box_height box1"
              "0 \<le> box_width box2" "0 \<le> box_height box2"
    and ov: "iou_x1 box1 box2 < iou_x2 box1 box2" "iou_y1 box1 box2 < iou_y2 box1 box2"
  shows "iou_intersection box1 box2 \<le> iou_union box1 box2"
  using iou_intersection_bounds[OF nn ov] by (simp add: iou_union_def)

lemma calculateIoU_range:
  assumes nn: "0 \<le> box_width box1" "0 \<le> box_height box1"
              "0 \<le> box_width box2" "0 \<le> box_height box2"
  shows "0 \<le> calculateIoU box1 box2 \<and> calculateIoU box1 box2 \<le> 1"
proof (cases "iou_x2 box1 box2 \<le> iou_x1 box1 box2 \<or> iou_y2 box1 box2 \<le> iou_y1 box1 box2")
  case True
  then show ?thesis by (simp add: calculateIoU_def)
next
  case False
  then have ov: "iou_x1 box1 box2 < iou_x2 box1 box2" "iou_y1 box1 box2 < iou_y2 box1 box2"
    by simp_all
  have i: "0 < iou_intersection box1 box2" by (rule iou_intersection_bounds(1)[OF nn ov])
  have u: "iou_intersection box1 box2 \<le> iou_union box1 box2"
    by (rule iou_union_ge_intersection[OF nn ov])
  from i u have "0 < iou_union box1 box2" by linarith
  with i u False show ?thesis by (simp add: calculateIoU_def)
qed

lemma calculateIoU_zero_area:
  assumes nn: "0 \<le> box_width box1" "0 \<le> box_height box1"
              "0 \<le> box_width box2" "0 \<le> box_height box2"
    and z: "box_width box1 * box_height box1 = 0 \<or> box_width box2 * box_height box2 = 0"
  shows "calculateIoU box1 box2 = 0"
proof -
  from z have "box_width box1 = 0 \<or> box_height box1 = 0 \<or> box_width box2 = 0 \<or> box_height box2 = 0"
    by auto
  then have "iou_x2 box1 box2 \<le> iou_x1 box1 box2 \<or> iou_y2 box1 box2 \<le> iou_y1 box1 box2"
    using nn by (auto simp: iou_x1_def iou_x2_def iou_y1_def iou_y2_def)
  then show ?thesis by (simp add: calculateIoU_def)
qed

text \<open>
  Over the reals: for two boxes with nonnegative widths and heights the quotient lies in
  \<open>[0,1]\<close>; it is 0 when the boxes do not overlap and when either box has zero area; and
  whenever the early return is not taken the intersection and the union are strictly
  positive.
\<close>

lemma calculateIoU_exact:
  assumes "0 \<le> box_width box1" "0 \<le> box_height box1"
          "0 \<le> box_width box2" "0 \<le> box_height box2"
  shows "0 \<le> calculateIoU box1 box2 \<and> calculateIoU box1 box2 \<le> 1
       \<and> (iou_x2 box1 box2 \<le> iou_x1 box1 box2 \<or> iou_y2 box1 box2 \<le> iou_y1 box1 box2
            \<longrightarrow> calculateIoU box1 box2 = 0)
       \<and> (box_width box1 * box_height box1 = 0 \<or> box_width box2 * box_height box2 = 0
            \<longrightarrow> calculateIoU box1 box2 = 0)
       \<and> (\<not> (iou_x2 box1 box2 \<le> iou_x1 box1 box2 \<or> iou_y2 box1 box2 \<le> iou_y1 box1 box2)
            \<longrightarrow> 0 < iou_intersection box1 box2 \<and> 0 < iou_union box1 box2
              \<and> calculateIoU box1 box2 = iou_intersection box1 box2 / iou_union box1 box2)"
proof -
  have r: "0 \<le> calculateIoU box1 box2 \<and> calculateIoU box1 box2 \<le> 1"
    by (rule calculateIoU_range[OF assms])
  have z: "box_width box1 * box_height box1 = 0 \<or> box_width box2 * box_height box2 = 0
            \<longrightarrow> calculateIoU box1 box2 = 0"
    using calculateIoU_zero_area[OF assms] by blast
  have d: "\<not> (iou_x2 box1 box2 \<le> iou_x1 box1 box2 \<or> iou_y2 box1 box2 \<le> iou_y1 box1 box2)
            \<longrightarrow> 0 < iou_intersection box1 box2 \<and> 0 < iou_union box1 box2
              \<and> calculateIoU box1 box2 = iou_intersection box1 box2 / iou_union box1 box2"
  proof
    assume n: "\<not> (iou_x2 box1 box2 \<le> iou_x1 box1 box2 \<or> iou_y2 box1 box2 \<le> iou_y1 box1 box2)"
    then have ov: "iou_x1 box1 box2 < iou_x2 box1 box2" "iou_y1 box1 box2 < iou_y2 box1 box2"
      by simp_all
    have i: "0 < iou_intersection box1 box2" by (rule iou_intersection_bounds(1)[OF assms ov])
    have "iou_intersection box1 box2 \<le> iou_union box1 box2"
      by (rule iou_union_ge_intersection[OF assms ov])
    with i have "0 < iou_union box1 box2" by linarith
    with i n show "0 < iou_intersection box1 box2 \<and> 0 < iou_union box1 box2
              \<and> calculateIoU box1 box2 = iou_intersection box1 box2 / iou_union box1 box2"
      by (simp add: calculateIoU_def)
  qed
  have e: "iou_x2 box1 box2 \<le> iou_x1 box1 box2 \<or> iou_y2 box1 box2 \<le> iou_y1 box1 box2
            \<longrightarrow> calculateIoU box1 box2 = 0"
    by (simp add: calculateIoU_def)
  from r z d e show ?thesis by blast
qed
section \<open>Arithmetic on doubles\<close>

lemma is_double_Ints:
  assumes "v \<in> \<int>" "\<bar>v\<bar> \<le> 2 ^ 53"
  shows "is_double v"
proof -
  have "(2::real) ^ 53 < 2 ^ 1024" by (rule power_strict_increasing) simp_all
  with assms(2) have "\<bar>v\<bar> < 2 ^ 1024" by linarith
  with fl_Ints[OF assms] show ?thesis by (simp add: is_double_def)
qed

lemma is_double_zero [simp]: "is_double 0"
  by (rule is_double_Ints) simp_all

lemma round_js_double: "is_double x \<Longrightarrow> round_js x = Num x"
  by (auto simp: round_js_def is_double_def abs_if split: if_splits)

lemma round_js_not_NaN [simp]: "round_js x \<noteq> NaN"
  by (simp add: round_js_def)

lemma js_add_exact: "is_double (a + b) \<Longrightarrow> js_add (Num a) (Num b) = Num (a + b)"
  by (simp add: round_js_double)

lemma js_sub_exact: "is_double (a - b) \<Longrightarrow> js_sub (Num a) (Num b) = Num (a - b)"
  by (simp add: js_sub_def round_js_double)

lemma js_mul_exact: "is_double (a * b) \<Longrightarrow> js_mul (Num a) (Num b) = Num (a * b)"
  by (simp add: round_js_double)

lemma js_max_Num [simp]: "js_max (Num a) (Num b) = Num (max a b)"
  by (simp add: js_max_def max_def)

lemma js_min_Num [simp]: "js_min (Num a) (Num b) = Num (min a b)"
  by (simp add: js_min_def min_def)

section \<open>calculateIoU on boxes of pixel coordinates\<close>

lemma pixel_number_sum:
  assumes "pixel_number a" "pixel_number b"
  shows "is_double (a + b)"
proof (rule is_double_Ints)
  show "a + b \<in> \<int>" using assms by (simp add: pixel_number_def)
  have "\<bar>a\<bar> \<le> 2 ^ 25" "\<bar>b\<bar> \<le> 2 ^ 25" using assms by (simp_all add: pixel_number_def)
  then have "\<bar>a + b\<bar> \<le> 2 ^ 25 + 2 ^ 25" by linarith
  then show "\<bar>a + b\<bar> \<le> 2 ^ 53" by simp
qed

lemma pixel_number_product:
  fixes a b :: real
  assumes "a \<in> \<int>" "b \<in> \<int>" "0 \<le> a" "a \<le> 2 ^ 25" "0 \<le> b" "b \<le> 2 ^ 25"
  shows "a * b \<in> \<int>" "0 \<le> a * b" "a * b \<le> 2 ^ 50"
proof -
  show "a * b \<in> \<int>" using assms by simp
  show "0 \<le> a * b" using assms by simp
  have "a * b \<le> 2 ^ 25 * 2 ^ 25" using assms by (intro mult_mono) simp_all
  then show "a * b \<le> 2 ^ 50" by simp
qed

lemma pixel_boxes_corners:
  assumes "pixel_box box1" "pixel_box box2"
  shows "dbl_x1 box1 box2 = Num (iou_x1 box1 box2)"
    and "dbl_y1 box1 box2 = Num (iou_y1 box1 box2)"
    and "dbl_x2 box1 box2 = Num (iou_x2 box1 box2)"
    and "dbl_y2 box1 box2 = Num (iou_y2 box1 box2)"
  using assms
  by (simp_all add: pixel_box_def dbl_x1_def dbl_y1_def dbl_x2_def dbl_y2_def
        iou_x1_def iou_y1_def iou_x2_def iou_y2_def round_js_double pixel_number_sum)

lemma pixel_boxes_exact:
  assumes px: "pixel_box box1" "pixel_box box2"
    and nn: "0 \<le> box_width box1" "0 \<le> box_height box1"
            "0 \<le> box_width box2" "0 \<le> box_height box2"
    and ov: "iou_x1 box1 box2 < iou_x2 box1 box2" "iou_y1 box1 box2 < iou_y2 box1 box2"
  shows "dbl_intersection box1 box2 = Num (iou_intersection box1 box2)"
    and "dbl_union box1 box2 = Num (iou_union box1 box2)"
    and "1 \<le> iou_intersection box1 box2"
    and "iou_intersection box1 box2 \<le> iou_union box1 box2"
proof -
  let ?dx = "iou_x2 box1 box2 - iou_x1 box1 box2"
  let ?dy = "iou_y2 box1 box2 - iou_y1 box1 box2"
  let ?a1 = "box_width box1 * box_height box1"
  let ?a2 = "box_width box2 * box_height box2"
  have ints: "box_x box1 \<in> \<int>" "box_y box1 \<in> \<int>" "box_width box1 \<in> \<int>" "box_height box1 \<in> \<int>"
    "box_x box2 \<in> \<int>" "box_y box2 \<in> \<int>" "box_width box2 \<in> \<int>" "box_height box2 \<in> \<int>"
    using px by (simp_all add: pixel_box_def pixel_number_def)
  have bd: "box_width box1 \<le> 2 ^ 25" "box_height box1 \<le> 2 ^ 25"
    "box_width box2 \<le> 2 ^ 25" "box_height box2 \<le> 2 ^ 25"
    using px unfolding pixel_box_def pixel_number_def by linarith+
  have dxi: "?dx \<in> \<int>" "?dy \<in> \<int>"
    using ints by (auto simp: iou_x1_def iou_x2_def iou_y1_def iou_y2_def max_def min_def)
  have dxp: "0 \<le> ?dx" "0 \<le> ?dy" using ov by simp_all
  have dxb: "?dx \<le> 2 ^ 25" "?dy \<le> 2 ^ 25"
    using iou_spans_le(1)[OF nn(1) nn(3)] iou_spans_le_y(1)[OF nn(2) nn(4)] bd by linarith+
  have dd: "is_double ?dx" "is_double ?dy"
    using dxi dxp dxb by (auto intro!: is_double_Ints)
  note i = pixel_number_product[OF dxi(1) dxi(2) dxp(1) dxb(1) dxp(2) dxb(2)]
  have di: "is_double (?dx * ?dy)" using i by (auto intro!: is_double_Ints)
  show I: "dbl_intersection box1 box2 = Num (iou_intersection box1 box2)"
    unfolding dbl_intersection_def iou_intersection_def pixel_boxes_corners[OF px]
    by (simp add: js_sub_def round_js_double dd di)
  note a1 = pixel_number_product[OF ints(3) ints(4) nn(1) bd(1) nn(2) bd(2)]
  note a2 = pixel_number_product[OF ints(7) ints(8) nn(3) bd(3) nn(4) bd(4)]
  have d1: "is_double ?a1" using a1 by (auto intro!: is_double_Ints)
  have d2: "is_double ?a2" using a2 by (auto intro!: is_double_Ints)
  have d12: "is_double (?a1 + ?a2)" using a1 a2 by (auto intro!: is_double_Ints)
  have il: "iou_intersection box1 box2 \<le> ?a1"
    by (rule iou_intersection_bounds(2)[OF nn ov])
  have ip: "0 < iou_intersection box1 box2"
    by (rule iou_intersection_bounds(1)[OF nn ov])
  have du: "is_double (?a1 + ?a2 - ?dx * ?dy)"
  proof (rule is_double_Ints)
    show "?a1 + ?a2 - ?dx * ?dy \<in> \<int>" using a1(1) a2(1) i(1) by simp
    have "0 \<le> ?a1 + ?a2 - ?dx * ?dy" using il a2(2) by (simp add: iou_intersection_def)
    moreover have "?a1 + ?a2 - ?dx * ?dy \<le> 2 ^ 50 + 2 ^ 50" using a1(3) a2(3) i(2) by linarith
    ultimately show "\<bar>?a1 + ?a2 - ?dx * ?dy\<bar> \<le> 2 ^ 53" by simp
  qed
  show "dbl_union box1 box2 = Num (iou_union box1 box2)"
    unfolding dbl_union_def I iou_union_def iou_intersection_def
    by (simp add: js_sub_def round_js_double d1 d2 d12 du)
  show "1 \<le> iou_intersection box1 box2"
  proof -
    from i(1) obtain n where n: "?dx * ?dy = real_of_int n" by (auto elim: Ints_cases)
    with ip have "0 < n" by (simp add: iou_intersection_def)
    then have "1 \<le> n" by simp
    then have "1 \<le> real_of_int n" by simp
    with n show ?thesis by (simp add: iou_intersection_def)
  qed
  show "iou_intersection box1 box2 \<le> iou_union box1 box2"
    by (rule iou_union_ge_intersection[OF nn ov])
qed

lemma pixel_boxes_value:
  assumes px: "pixel_box box1" "pixel_box box2"
    and nn: "0 \<le> box_width box1" "0 \<le> box_height box1"
            "0 \<le> box_width box2" "0 \<le> box_height box2"
  shows "calculateIoU_double box1 box2 = Num (fl (calculateIoU box1 box2))"
    and "0 \<le> fl (calculateIoU box1 box2)" and "fl (calculateIoU box1 box2) \<le> 1"
proof -
  have r: "0 \<le> calculateIoU box1 box2 \<and> calculateIoU box1 box2 \<le> 1"
    by (rule calculateIoU_range[OF nn])
  then show u: "0 \<le> fl (calculateIoU box1 box2)" "fl (calculateIoU box1 box2) \<le> 1"
    using fl_unit_range[of "calculateIoU box1 box2"] by simp_all
  show "calculateIoU_double box1 box2 = Num (fl (calculateIoU box1 box2))"
  proof (cases "iou_x2 box1 box2 \<le> iou_x1 box1 box2 \<or> iou_y2 box1 box2 \<le> iou_y1 box1 box2")
    case True
    then show ?thesis
      by (simp add: calculateIoU_double_def calculateIoU_def pixel_boxes_corners[OF px])
  next
    case False
    then have ov: "iou_x1 box1 box2 < iou_x2 box1 box2" "iou_y1 box1 box2 < iou_y2 box1 box2"
      by simp_all
    note e = pixel_boxes_exact[OF px nn ov]
    have nz: "iou_union box1 box2 \<noteq> 0" using e(3) e(4) by linarith
    have q: "calculateIoU box1 box2 = iou_intersection box1 box2 / iou_union box1 box2"
      using False by (simp add: calculateIoU_def)
    have "(1::real) < 2 ^ 1024" by (rule one_less_power) simp_all
    with u have "round_js (calculateIoU box1 box2) = Num (fl (calculateIoU box1 box2))"
      by (simp add: round_js_def)
    then show ?thesis
      using False nz by (simp add: calculateIoU_double_def pixel_boxes_corners[OF px] e(1,2) q)
  qed
qed
section \<open>calculateIoU on boxes of doubles\<close>

lemma round_js_le_double:
  assumes "is_double d" "s \<le> d"
  shows "js_le (round_js s) (Num d)"
proof -
  from assms have "fl s \<le> d" by (intro fl_le_double) (simp_all add: is_double_def)
  moreover have "d < 2 ^ 1024" using assms(1) by (simp add: is_double_def abs_if split: if_splits)
  ultimately show ?thesis by (simp add: round_js_def)
qed

lemma js_min_le:
  assumes "js_le A (Num m) \<or> js_le B (Num m)" "A \<noteq> NaN" "B \<noteq> NaN"
  shows "js_le (js_min A B) (Num m)"
  using assms by (cases A; cases B) (auto simp: js_min_def)

lemma is_double_max: "is_double a \<Longrightarrow> is_double b \<Longrightarrow> is_double (max a b)"
  by (simp add: max_def)

lemma double_boxes_apart:
  assumes db: "double_box box1" "double_box box2"
  shows "iou_x2 box1 box2 \<le> iou_x1 box1 box2 \<Longrightarrow> js_le (dbl_x2 box1 box2) (dbl_x1 box1 box2)"
    and "iou_y2 box1 box2 \<le> iou_y1 box1 box2 \<Longrightarrow> js_le (dbl_y2 box1 box2) (dbl_y1 box1 box2)"
proof -
  have mx: "is_double (max (box_x box1) (box_x box2))" "is_double (max (box_y box1) (box_y box2))"
    using db by (simp_all add: double_box_def is_double_max)
  show "js_le (dbl_x2 box1 box2) (dbl_x1 box1 box2)" if "iou_x2 box1 box2 \<le> iou_x1 box1 box2"
  proof -
    from that have "box_x box1 + box_width box1 \<le> max (box_x box1) (box_x box2)
        \<or> box_x box2 + box_width box2 \<le> max (box_x box1) (box_x box2)"
      by (auto simp: iou_x1_def iou_x2_def min_def split: if_splits)
    then have "js_le (round_js (box_x box1 + box_width box1)) (Num (max (box_x box1) (box_x box2)))
        \<or> js_le (round_js (box_x box2 + box_width box2)) (Num (max (box_x box1) (box_x box2)))"
      using round_js_le_double[OF mx(1)] by blast
    then show ?thesis
      unfolding dbl_x2_def dbl_x1_def by (simp add: js_min_le)
  qed
  show "js_le (dbl_y2 box1 box2) (dbl_y1 box1 box2)" if "iou_y2 box1 box2 \<le> iou_y1 box1 box2"
  proof -
    from that have "box_y box1 + box_height box1 \<le> max (box_y box1) (box_y box2)
        \<or> box_y box2 + box_height box2 \<le> max (box_y box1) (box_y box2)"
      by (auto simp: iou_y1_def iou_y2_def min_def split: if_splits)
    then have "js_le (round_js (box_y box1 + box_height box1)) (Num (max (box_y box1) (box_y box2)))
        \<or> js_le (round_js (box_y box2 + box_height box2)) (Num (max (box_y box1) (box_y box2)))"
      using round_js_le_double[OF mx(2)] by blast
    then show ?thesis
      unfolding dbl_y2_def dbl_y1_def by (simp add: js_min_le)
  qed
qed

lemma pixel_box_double: "pixel_box b \<Longrightarrow> double_box b"
proof -
  have "is_double v" if "pixel_number v" for v
  proof (rule is_double_Ints)
    show "v \<in> \<int>" using that by (simp add: pixel_number_def)
    have "\<bar>v\<bar> \<le> 2 ^ 25" using that by (simp add: pixel_number_def)
    then show "\<bar>v\<bar> \<le> 2 ^ 53" by simp
  qed
  then show "pixel_box b \<Longrightarrow> double_box b" by (simp add: pixel_box_def double_box_def)
qed

text \<open>
  C10, amended.  For boxes with nonnegative widths and heights whose fields are finite
  doubles, \<open>calculateIoU\<close> returns 0 whenever the boxes do not overlap, in particular when
  one of them has zero area.  When the fields are pixel coordinates (integers up to
  \<open>2\<^sup>2\<^sup>5\<close> in magnitude) every operation before the division is exact: the result is the
  rounded quotient of the intersection by the union, it lies in \<open>[0,1]\<close>, and the division
  is reached only with an intersection of at least 1 and a union that is no smaller.
\<close>

theorem calculateIoU_double_safe:
  assumes "double_box box1" "double_box box2"
    and "0 \<le> box_width box1" "0 \<le> box_height box1"
        "0 \<le> box_width box2" "0 \<le> box_height box2"
  shows "(iou_x2 box1 box2 \<le> iou_x1 box1 box2 \<or> iou_y2 box1 box2 \<le> iou_y1 box1 box2
            \<longrightarrow> calculateIoU_double box1 box2 = Num 0)
       \<and> (box_width box1 * box_height box1 = 0 \<or> box_width box2 * box_height box2 = 0
            \<longrightarrow> calculateIoU_double box1 box2 = Num 0)
       \<and> (pixel_box box1 \<and> pixel_box box2 \<longrightarrow>
            calculateIoU_double box1 box2 = Num (fl (calculateIoU box1 box2))
            \<and> 0 \<le> fl (calculateIoU box1 box2) \<and> fl (calculateIoU box1 box2) \<le> 1
            \<and> (\<not> (js_le (dbl_x2 box1 box2) (dbl_x1 box1 box2)
                    \<or> js_le (dbl_y2 box1 box2) (dbl_y1 box1 box2))
                 \<longrightarrow> dbl_intersection box1 box2 = Num (iou_intersection box1 box2)
                   \<and> dbl_union box1 box2 = Num (iou_union box1 box2)
                   \<and> 1 \<le> iou_intersection box1 box2
                   \<and> iou_intersection box1 box2 \<le> iou_union box1 box2))"
proof -
  note db = assms(1,2) and nn = assms(3-6)
  have apart: "calculateIoU_double box1 box2 = Num 0"
    if "iou_x2 box1 box2 \<le> iou_x1 box1 box2 \<or> iou_y2 box1 box2 \<le> iou_y1 box1 box2"
    using that double_boxes_apart[OF db] by (auto simp: calculateIoU_double_def)
  have zero: "calculateIoU_double box1 box2 = Num 0"
    if z: "box_width box1 * box_height box1 = 0 \<or> box_width box2 * box_height box2 = 0"
  proof -
    from z have "box_width box1 = 0 \<or> box_height box1 = 0
        \<or> box_width box2 = 0 \<or> box_height box2 = 0"
      by auto
    then have "iou_x2 box1 box2 \<le> iou_x1 box1 box2 \<or> iou_y2 box1 box2 \<le> iou_y1 box1 box2"
      using nn by (auto simp: iou_x1_def iou_x2_def iou_y1_def iou_y2_def)
    then show ?thesis by (rule apart)
  qed
  have pixels: "calculateIoU_double box1 box2 = Num (fl (calculateIoU box1 box2))
            \<and> 0 \<le> fl (calculateIoU box1 box2) \<and> fl (calculateIoU box1 box2) \<le> 1
            \<and> (\<not> (js_le (dbl_x2 box1 box2) (dbl_x1 box1 box2)
                    \<or> js_le (dbl_y2 box1 box2) (dbl_y1 box1 box2))
                 \<longrightarrow> dbl_intersection box1 box2 = Num (iou_intersection box1 box2)
                   \<and> dbl_union box1 box2 = Num (iou_union box1 box2)
                   \<and> 1 \<le> iou_intersection box1 box2
                   \<and> iou_intersection box1 box2 \<le> iou_union box1 box2)"
    if px: "pixel_box box1 \<and> pixel_box box2"
  proof -
    from px have p: "pixel_box box1" "pixel_box box2" by simp_all
    have reached: "dbl_intersection box1 box2 = Num (iou_intersection box1 box2)
                   \<and> dbl_union box1 box2 = Num (iou_union box1 box2)
                   \<and> 1 \<le> iou_intersection box1 box2
                   \<and> iou_intersection box1 box2 \<le> iou_union box1 box2"
      if "\<not> (js_le (dbl_x2 box1 box2) (dbl_x1 box1 box2)
               \<or> js_le (dbl_y2 box1 box2) (dbl_y1 box1 box2))"
    proof -
      from that have ov: "iou_x1 box1 box2 < iou_x2 box1 box2" "iou_y1 box1 box2 < iou_y2 box1 box2"
        by (simp_all add: pixel_boxes_corners[OF p])
      from pixel_boxes_exact[OF p nn ov] show ?thesis by simp
    qed
    from pixel_boxes_value[OF p nn] reached show ?thesis by blast
  qed
  from apart zero pixels show ?thesis by blast
qed

text \<open>
  The theorem at the boxes \<open>(0,0,10,10)\<close> and \<open>(5,5,10,10)\<close>: they overlap in a square of
  side 5, the union is 175, the result is the double nearest to 1/7.  And at the boxes
  \<open>(0,0,10,10)\<close> and \<open>(20,20,0,5)\<close>, which are apart and of which one has zero area.
\<close>

theorem calculateIoU_double_safe_witness:
  "calculateIoU_double \<lparr>box_x = 0, box_y = 0, box_width = 10, box_height = 10\<rparr>
                       \<lparr>box_x = 5, box_y = 5, box_width = 10, box_height = 10\<rparr> = Num (fl (1/7))
   \<and> dbl_intersection \<lparr>box_x = 0, box_y = 0, box_width = 10, box_height = 10\<rparr>
                      \<lparr>box_x = 5, box_y = 5, box_width = 10, box_height = 10\<rparr> = Num 25
   \<and> dbl_union \<lparr>box_x = 0, box_y = 0, box_width = 10, box_height = 10\<rparr>
               \<lparr>box_x = 5, box_y = 5, box_width = 10, box_height = 10\<rparr> = Num 175
   \<and> 0 \<le> fl (1/7) \<and> fl (1/7) \<le> 1
   \<and> calculateIoU_double \<lparr>box_x = 0, box_y = 0, box_width = 10, box_height = 10\<rparr>
                         \<lparr>box_x = 20, box_y = 20, box_width = 0, box_height = 5\<rparr> = Num 0"
proof -
  let ?b1 = "\<lparr>box_x = 0, box_y = 0, box_width = 10, box_height = 10\<rparr>"
  let ?b2 = "\<lparr>box_x = 5, box_y = 5, box_width = 10, box_height = 10\<rparr>"
  let ?b3 = "\<lparr>box_x = 20, box_y = 20, box_width = 0, box_height = 5\<rparr>"
  have p: "pixel_box ?b1" "pixel_box ?b2" "pixel_box ?b3"
    by (simp_all add: pixel_box_def pixel_number_def)
  have c: "dbl_x1 ?b1 ?b2 = Num 5" "dbl_x2 ?b1 ?b2 = Num 10"
    "dbl_y1 ?b1 ?b2 = Num 5" "dbl_y2 ?b1 ?b2 = Num 10"
    unfolding pixel_boxes_corners[OF p(1,2)]
    by (simp_all add: iou_x1_def iou_x2_def iou_y1_def iou_y2_def)
  have v: "calculateIoU ?b1 ?b2 = 1/7" "iou_intersection ?b1 ?b2 = 25" "iou_union ?b1 ?b2 = 175"
    by (simp_all add: calculateIoU_def iou_x1_def iou_x2_def iou_y1_def iou_y2_def
          iou_intersection_def iou_union_def)
  from calculateIoU_double_safe[OF pixel_box_double[OF p(1)] pixel_box_double[OF p(2)]] p
  have overlap: "calculateIoU_double ?b1 ?b2 = Num (fl (1/7))
      \<and> dbl_intersection ?b1 ?b2 = Num 25 \<and> dbl_union ?b1 ?b2 = Num 175
      \<and> 0 \<le> fl (1/7) \<and> fl (1/7) \<le> 1"
    unfolding c v by simp
  have "iou_x2 ?b1 ?b3 \<le> iou_x1 ?b1 ?b3" by (simp add: iou_x1_def iou_x2_def)
  with calculateIoU_double_safe[OF pixel_box_double[OF p(1)] pixel_box_double[OF p(3)]]
  have apart: "calculateIoU_double ?b1 ?b3 = Num 0" by simp
  from overlap apart show ?thesis by blast
qed

section \<open>calculateIoU outside the unit interval\<close>

lemma tiny_square: "fl (2 powr (- 600) * 2 powr (- 600)) = 0"
proof -
  have "(2::real) powr (- 600) * 2 powr (- 600) = 2 powr (- 1200)"
    by (simp only: powr_add [symmetric]) simp
  moreover have "\<bar>(2::real) powr (- 1200)\<bar> < 2 powr (- 1075)"
  proof -
    have "(2::real) powr (- 1200) < 2 powr (- 1075)" by (intro powr_less_mono) simp_all
    moreover have "\<bar>(2::real) powr (- 1200)\<bar> = 2 powr (- 1200)" by (rule abs_of_nonneg) simp
    ultimately show ?thesis by (simp only:)
  qed
  ultimately show ?thesis by (simp only: fl_underflow)
qed

lemma tiny_double: "is_double (2 powr (- 600))"
proof -
  have "fl (2 powr real_of_int (- 600)) = 2 powr real_of_int (- 600)"
    by (rule fl_pow2) simp
  moreover have "(2::real) powr (- 600) < 2 powr 1024" by (intro powr_less_mono) simp_all
  ultimately show ?thesis by (simp add: is_double_def)
qed

text \<open>
  C10 as stated fails on doubles.  For the square of side \<open>2\<^sup>-\<^sup>6\<^sup>0\<^sup>0\<close> and itself the corner
  tests find an overlap, the products of the sides underflow to 0, and the division is
  \<open>0 / 0\<close>: the result is \<open>NaN\<close>, where the quotient of the exact areas is 1.
\<close>

theorem calculateIoU_double_nan_counterexample:
  "double_box tiny_box
   \<and> 0 \<le> box_width tiny_box \<and> 0 \<le> box_height tiny_box
   \<and> \<not> js_le (dbl_x2 tiny_box tiny_box) (dbl_x1 tiny_box tiny_box)
   \<and> \<not> js_le (dbl_y2 tiny_box tiny_box) (dbl_y1 tiny_box tiny_box)
   \<and> dbl_intersection tiny_box tiny_box = Num 0
   \<and> dbl_union tiny_box tiny_box = Num 0
   \<and> calculateIoU_double tiny_box tiny_box = NaN
   \<and> calculateIoU tiny_box tiny_box = 1"
proof -
  let ?t = "(2::real) powr (- 600)"
  have t: "0 < ?t" by simp
  have d: "double_box tiny_box" by (simp add: double_box_def tiny_box_def tiny_double)
  have x: "dbl_x1 tiny_box tiny_box = Num 0" "dbl_y1 tiny_box tiny_box = Num 0"
    "dbl_x2 tiny_box tiny_box = Num ?t" "dbl_y2 tiny_box tiny_box = Num ?t"
    by (simp_all add: dbl_x1_def dbl_y1_def dbl_x2_def dbl_y2_def tiny_box_def
          round_js_double tiny_double)
  have z: "round_js (?t * ?t) = Num 0" by (simp add: round_js_def tiny_square)
  have i: "dbl_intersection tiny_box tiny_box = Num 0"
    unfolding dbl_intersection_def x by (simp add: js_sub_def round_js_double tiny_double z)
  have u: "dbl_union tiny_box tiny_box = Num 0"
    unfolding dbl_union_def i by (simp add: tiny_box_def z js_sub_def round_js_double)
  have n: "calculateIoU_double tiny_box tiny_box = NaN"
    unfolding calculateIoU_double_def x i u using t by simp
  have r: "calculateIoU tiny_box tiny_box = 1"
    using t by (simp add: calculateIoU_def iou_x1_def iou_x2_def iou_y1_def iou_y2_def
        iou_intersection_def iou_union_def tiny_box_def)
  from d x i u n r t show ?thesis by (simp add: tiny_box_def)
qed
section \<open>calculateIoU above 1\<close>

text \<open>The doubles of the literals \<open>0.1\<close> and \<open>0.2\<close>.\<close>

lemma decimal_literals:
  "fl (1/10) = 3602879701896397 / 36028797018963968"
  "fl (1/5) = 3602879701896397 / 18014398509481984"
proof -
  show "fl (1/10) = 3602879701896397 / 36028797018963968"
    using fl_eval_frac[of "1/10" 56 7205759403792794] by simp
  show "fl (1/5) = 3602879701896397 / 18014398509481984"
    using fl_eval_frac[of "1/5" 55 7205759403792794] by simp
qed

text \<open>The roundings met by \<open>calculateIoU\<close> on the box of the literals and itself.\<close>

lemma decimal_steps:
  "fl (3602879701896397 / 36028797018963968) = 3602879701896397 / 36028797018963968"
  "fl (3602879701896397 / 18014398509481984) = 3602879701896397 / 18014398509481984"
  "fl (10808639105689191 / 36028797018963968) = 1351079888211149 / 4503599627370496"
  "fl (7205759403792795 / 36028797018963968) = 7205759403792795 / 36028797018963968"
  "fl (51922968585348296461431293912025 / 1298074214633706907132624082305024) = 5764607523034237 / 144115188075855872"
  "fl (12980742146337070512478121581609 / 324518553658426726783156020576256) = 1441151880758559 / 36028797018963968"
  "fl (1441151880758559 / 18014398509481984) = 1441151880758559 / 18014398509481984"
  "fl (5764607523034235 / 144115188075855872) = 5764607523034235 / 144115188075855872"
  "fl (5764607523034237 / 5764607523034235) = 2251799813685249 / 2251799813685248"
proof -
  show "fl (3602879701896397 / 36028797018963968) = 3602879701896397 / 36028797018963968"
    using fl_eval_frac[of "3602879701896397 / 36028797018963968" 56 7205759403792794] by simp
  show "fl (3602879701896397 / 18014398509481984) = 3602879701896397 / 18014398509481984"
    using fl_eval_frac[of "3602879701896397 / 18014398509481984" 55 7205759403792794] by simp
  show "fl (10808639105689191 / 36028797018963968) = 1351079888211149 / 4503599627370496"
    using fl_eval_frac_tie[of "10808639105689191 / 36028797018963968" 54 5404319552844595] by simp
  show "fl (7205759403792795 / 36028797018963968) = 7205759403792795 / 36028797018963968"
    using fl_eval_frac[of "7205759403792795 / 36028797018963968" 55 7205759403792795] by simp
  show "fl (51922968585348296461431293912025 / 1298074214633706907132624082305024) = 5764607523034237 / 144115188075855872"
    using fl_eval_frac[of "51922968585348296461431293912025 / 1298074214633706907132624082305024" 57 5764607523034237] by simp
  show "fl (12980742146337070512478121581609 / 324518553658426726783156020576256) = 1441151880758559 / 36028797018963968"
    using fl_eval_frac[of "12980742146337070512478121581609 / 324518553658426726783156020576256" 57 5764607523034236] by simp
  show "fl (1441151880758559 / 18014398509481984) = 1441151880758559 / 18014398509481984"
    using fl_eval_frac[of "1441151880758559 / 18014398509481984" 56 5764607523034236] by simp
  show "fl (5764607523034235 / 144115188075855872) = 5764607523034235 / 144115188075855872"
    using fl_eval_frac[of "5764607523034235 / 144115188075855872" 57 5764607523034235] by simp
  show "fl (5764607523034237 / 5764607523034235) = 2251799813685249 / 2251799813685248"
    using fl_eval_frac[of "5764607523034237 / 5764607523034235" 52 4503599627370498] by simp
qed

text \<open>
  For the box \<open>{ x: 0.1, y: 0.1, width: 0.2, height: 0.2 }\<close> and itself the rounded
  intersection is two spacings above the rounded union, and the result is the double
  above 1, printed as \<open>1.0000000000000004\<close>.
\<close>

lemma calculateIoU_double_above_one:
  "double_box decimal_box"
  "calculateIoU_double decimal_box decimal_box = Num (1 + 1 / 2 ^ 51)"
proof -
  have big: "(1::real) < 2 ^ 1024" by (rule one_less_power) simp_all
  show "double_box decimal_box"
    using big by (simp add: double_box_def decimal_box_def is_double_def decimal_literals
        decimal_steps)
  show "calculateIoU_double decimal_box decimal_box = Num (1 + 1 / 2 ^ 51)"
    using big
    by (simp add: calculateIoU_double_def dbl_x1_def dbl_y1_def dbl_x2_def dbl_y2_def
        dbl_intersection_def dbl_union_def decimal_box_def decimal_literals js_sub_def
        round_js_def decimal_steps)
qed
section \<open>The inner loop: choice of the best candidate\<close>

lemma find_best_mono:
  "find_best thr M d gt js (bm0, v0, k0) = Inr (bm, v, k) \<Longrightarrow> v0 \<le> v"
proof (induction js arbitrary: bm0 v0 k0)
  case Nil then show ?case by simp
next
  case (Cons i js)
  then show ?case
    by (fastforce split: if_splits option.splits)
qed

lemma find_best_cases:
  "find_best thr M d gt js (bm0, v0, k0) = Inr (bm, v, k) \<Longrightarrow>
     (bm, v, k) = (bm0, v0, k0) \<or>
     (\<exists>i\<in>set js. eligible M d gt i \<and> bounding_box (gt ! i) \<noteq> None \<and> bm = Some (gt ! i)
        \<and> k = int i \<and> v = iou_at d gt i \<and> thr < v \<and> v0 < v)"
proof (induction js arbitrary: bm0 v0 k0)
  case Nil then show ?case by simp
next
  case (Cons i js)
  show ?case
  proof (cases "eligible M d gt i")
    case False
    then have "find_best thr M d gt js (bm0, v0, k0) = Inr (bm, v, k)"
      using Cons.prems by (auto simp: eligible_def split: if_splits)
    from Cons.IH[OF this] show ?thesis by auto
  next
    case True
    then obtain b where b: "bounding_box (gt ! i) = Some b"
      using Cons.prems by (auto simp: eligible_def split: option.splits)
    show ?thesis
    proof (cases "calculateIoU (boundingBox d) b > v0 \<and> calculateIoU (boundingBox d) b > thr")
      case upd: True
      then have run: "find_best thr M d gt js (Some (gt ! i), calculateIoU (boundingBox d) b, int i)
                   = Inr (bm, v, k)"
        using Cons.prems True b by (auto simp: eligible_def)
      have ge: "calculateIoU (boundingBox d) b \<le> v" by (rule find_best_mono[OF run])
      from Cons.IH[OF run] show ?thesis
      proof
        assume "(bm, v, k) = (Some (gt ! i), calculateIoU (boundingBox d) b, int i)"
        then show ?thesis using True b upd by (auto simp: iou_at_def)
      next
        assume "\<exists>i'\<in>set js. eligible M d gt i' \<and> bounding_box (gt ! i') \<noteq> None \<and> bm = Some (gt ! i')
          \<and> k = int i' \<and> v = iou_at d gt i' \<and> thr < v \<and> calculateIoU (boundingBox d) b < v"
        then show ?thesis using upd by fastforce
      qed
    next
      case False
      then have "find_best thr M d gt js (bm0, v0, k0) = Inr (bm, v, k)"
        using Cons.prems True b by (auto simp: eligible_def)
      from Cons.IH[OF this] show ?thesis by auto
    qed
  qed
qed

lemma find_best_max:
  "find_best thr M d gt js (bm0, v0, k0) = Inr (bm, v, k) \<Longrightarrow>
     i \<in> set js \<Longrightarrow> eligible M d gt i \<Longrightarrow> thr < iou_at d gt i \<Longrightarrow> iou_at d gt i \<le> v"
proof (induction js arbitrary: bm0 v0 k0)
  case Nil then show ?case by simp
next
  case (Cons j js)
  show ?case
  proof (cases "eligible M d gt j")
    case False
    then have run: "find_best thr M d gt js (bm0, v0, k0) = Inr (bm, v, k)"
      using Cons.prems by (auto simp: eligible_def split: if_splits)
    from False Cons.prems have "i \<in> set js" by auto
    from Cons.IH[OF run this Cons.prems(3,4)] show ?thesis .
  next
    case True
    then obtain b where b: "bounding_box (gt ! j) = Some b"
      using Cons.prems by (auto simp: eligible_def split: option.splits)
    let ?u = "calculateIoU (boundingBox d) b"
    have uj: "iou_at d gt j = ?u" using b by (simp add: iou_at_def)
    show ?thesis
    proof (cases "?u > v0 \<and> ?u > thr")
      case upd: True
      then have run: "find_best thr M d gt js (Some (gt ! j), ?u, int j) = Inr (bm, v, k)"
        using Cons.prems True b by (auto simp: eligible_def)
      show ?thesis
      proof (cases "i = j")
        case True
        then show ?thesis using find_best_mono[OF run] uj by simp
      next
        case False
        then have "i \<in> set js" using Cons.prems by auto
        from Cons.IH[OF run this Cons.prems(3,4)] show ?thesis .
      qed
    next
      case noupd: False
      then have run: "find_best thr M d gt js (bm0, v0, k0) = Inr (bm, v, k)"
        using Cons.prems True b by (auto simp: eligible_def)
      show ?thesis
      proof (cases "i = j")
        case True
        then have "iou_at d gt i \<le> v0" using noupd uj Cons.prems(4) by auto
        then show ?thesis using find_best_mono[OF run] by linarith
      next
        case False
        then have "i \<in> set js" using Cons.prems by auto
        from Cons.IH[OF run this Cons.prems(3,4)] show ?thesis .
      qed
    qed
  qed
qed

lemma find_best_bbox:
  "find_best thr M d gt js (bm0, v0, k0) = Inr r \<Longrightarrow>
     i \<in> set js \<Longrightarrow> eligible M d gt i \<Longrightarrow> bounding_box (gt ! i) \<noteq> None"
proof (induction js arbitrary: bm0 v0 k0)
  case Nil then show ?case by simp
next
  case (Cons j js)
  show ?case using Cons.prems Cons.IH
    by (auto simp: eligible_def split: if_splits option.splits)
qed

lemma find_best_total:
  "(\<forall>i\<in>set js. eligible M d gt i \<longrightarrow> bounding_box (gt ! i) \<noteq> None) \<Longrightarrow>
     \<exists>r. find_best thr M d gt js (bm0, v0, k0) = Inr r"
proof (induction js arbitrary: bm0 v0 k0)
  case Nil then show ?case by simp
next
  case (Cons j js)
  show ?case using Cons.prems Cons.IH
    by (auto simp: eligible_def split: if_splits option.splits)
qed

section \<open>The outer loop: the greedy matching\<close>

lemma find_best_init_None:
  assumes "find_best thr M d gt js (None, 0, -1) = Inr (None, v, k)" and "0 \<le> thr"
  shows "\<forall>i\<in>set js. eligible M d gt i \<longrightarrow> iou_at d gt i \<le> thr"
proof (intro ballI impI)
  fix i assume i: "i \<in> set js" "eligible M d gt i"
  from find_best_cases[OF assms(1)] have v: "v = 0" by auto
  show "iou_at d gt i \<le> thr"
  proof (rule ccontr)
    assume "\<not> iou_at d gt i \<le> thr"
    then have gt: "thr < iou_at d gt i" by simp
    from find_best_max[OF assms(1) i gt] v assms(2) gt show False by simp
  qed
qed

lemma find_best_init_Some:
  assumes "find_best thr M d gt js (None, 0, -1) = Inr (Some bm, v, k)"
  shows "\<exists>i\<in>set js. k = int i \<and> bm = gt ! i \<and> v = iou_at d gt i \<and> eligible M d gt i
           \<and> bounding_box (gt ! i) \<noteq> None \<and> thr < v \<and> 0 < v
           \<and> (\<forall>i'\<in>set js. eligible M d gt i' \<longrightarrow> iou_at d gt i' \<le> v)"
proof -
  from find_best_cases[OF assms] obtain i where i: "i \<in> set js" "eligible M d gt i"
     "bounding_box (gt ! i) \<noteq> None" "Some bm = Some (gt ! i)" "k = int i" "v = iou_at d gt i"
     "thr < v" "0 < v" by auto
  have "\<forall>i'\<in>set js. eligible M d gt i' \<longrightarrow> iou_at d gt i' \<le> v"
  proof (intro ballI impI)
    fix i' assume i': "i' \<in> set js" "eligible M d gt i'"
    show "iou_at d gt i' \<le> v"
    proof (cases "thr < iou_at d gt i'")
      case True
      from find_best_max[OF assms i' True] show ?thesis .
    next
      case False
      then show ?thesis using i(7) by simp
    qed
  qed
  with i show ?thesis by auto
qed

lemma assigned_before_0 [simp]: "assigned_before asg 0 = {}"
  by (simp add: assigned_before_def)

lemma assigned_before_Cons:
  "assigned_before (a # asg) (Suc j) = (case a of None \<Rightarrow> {} | Some i \<Rightarrow> {i}) \<union> assigned_before asg j"
proof -
  have "\<And>i. (\<exists>k<Suc j. k < length (a # asg) \<and> (a # asg) ! k = Some i)
          \<longleftrightarrow> (a = Some i \<or> (\<exists>k<j. k < length asg \<and> asg ! k = Some i))"
    by (auto simp: less_Suc_eq_0_disj)
  then show ?thesis
    by (auto simp: assigned_before_def split: option.splits)
qed

lemma matching_greedy:
  assumes "0 \<le> thr"
  shows "matching thr gt ds M = Inr asg \<Longrightarrow>
     length asg = length ds \<and>
     (\<forall>j<length ds. greedy_choice thr gt (ds ! j) (M \<union> assigned_before asg j) (asg ! j))"
proof (induction ds arbitrary: M asg)
  case Nil then show ?case by auto
next
  case (Cons d ds)
  from Cons.prems obtain bm v k where fb:
    "find_best thr M d gt [0..<length gt] (None, 0, -1) = Inr (bm, v, k)"
    by (auto split: sum.splits)
  show ?case
  proof (cases bm)
    case None
    with Cons.prems fb obtain asg' where asg': "matching thr gt ds M = Inr asg'" "asg = None # asg'"
      by (auto split: sum.splits)
    from Cons.IH[OF asg'(1)] have IH: "length asg' = length ds"
      "\<And>j. j < length ds \<Longrightarrow> greedy_choice thr gt (ds ! j) (M \<union> assigned_before asg' j) (asg' ! j)"
      by auto
    have h0: "greedy_choice thr gt d M None"
      using find_best_init_None[OF fb[unfolded None] assms]
      by (auto simp: greedy_choice_def)
    have "greedy_choice thr gt ((d # ds) ! j) (M \<union> assigned_before asg j) (asg ! j)"
      if "j < length (d # ds)" for j
    proof (cases j)
      case 0
      then show ?thesis using h0 asg'(2) by simp
    next
      case (Suc j')
      then show ?thesis using IH(2)[of j'] that asg'(2) by (simp add: assigned_before_Cons)
    qed
    then show ?thesis using IH(1) asg'(2) by simp
  next
    case (Some g)
    with Cons.prems fb obtain asg' where asg':
      "matching thr gt ds (insert (nat k) M) = Inr asg'" "asg = Some (nat k) # asg'"
      by (auto split: sum.splits)
    from Cons.IH[OF asg'(1)] have IH: "length asg' = length ds"
      "\<And>j. j < length ds \<Longrightarrow>
         greedy_choice thr gt (ds ! j) (insert (nat k) M \<union> assigned_before asg' j) (asg' ! j)"
      by auto
    have h0: "greedy_choice thr gt d M (Some (nat k))"
      using find_best_init_Some[OF fb[unfolded Some]]
      by (auto simp: greedy_choice_def)
    have "greedy_choice thr gt ((d # ds) ! j) (M \<union> assigned_before asg j) (asg ! j)"
      if "j < length (d # ds)" for j
    proof (cases j)
      case 0
      then show ?thesis using h0 asg'(2) by simp
    next
      case (Suc j')
      then show ?thesis using IH(2)[of j'] that asg'(2) by (simp add: assigned_before_Cons)
    qed
    then show ?thesis using IH(1) asg'(2) by simp
  qed
qed

lemma matching_injective:
  assumes "0 \<le> thr" "matching thr gt ds M = Inr asg"
    "j < length ds" "k < length ds" "asg ! j = Some i" "asg ! k = Some i"
  shows "j = k"
proof -
  from matching_greedy[OF assms(1,2)] have len: "length asg = length ds"
    and g: "\<And>j. j < length ds \<Longrightarrow> greedy_choice thr gt (ds ! j) (M \<union> assigned_before asg j) (asg ! j)"
    by auto
  have ne: "i \<notin> assigned_before asg j'" if "j' < length ds" "asg ! j' = Some i" for j'
    using g[OF that(1)] that(2) by (auto simp: greedy_choice_def eligible_def)
  show ?thesis
  proof (rule ccontr)
    assume "j \<noteq> k"
    then consider "j < k" | "k < j" by linarith
    then show False
    proof cases
      case 1
      then have "i \<in> assigned_before asg k" using assms len by (auto simp: assigned_before_def)
      with ne[OF assms(4,6)] show False by simp
    next
      case 2
      then have "i \<in> assigned_before asg j" using assms len by (auto simp: assigned_before_def)
      with ne[OF assms(3,5)] show False by simp
    qed
  qed
qed

lemma matching_never_in_M:
  assumes "0 \<le> thr" "matching thr gt ds M = Inr asg" "j < length ds" "asg ! j = Some i"
  shows "i \<notin> M" "i < length gt"
  using matching_greedy[OF assms(1,2)] assms(3,4)
  by (auto simp: greedy_choice_def eligible_def)

text \<open>Agreement of the trace with the loop of the source.\<close>

lemma match_loop_matching:
  "match_loop thr gt ds s = Inr s' \<Longrightarrow>
     \<exists>asg. matching thr gt ds (matched s) = Inr asg
        \<and> matched s' = matched s \<union> {i. Some i \<in> set asg}
        \<and> truePositives s' = truePositives s + length (filter (\<lambda>a. a \<noteq> None) asg)"
proof (induction ds arbitrary: s)
  case Nil then show ?case by auto
next
  case (Cons d ds)
  from Cons.prems obtain bm v k where fb:
    "find_best thr (matched s) d gt [0..<length gt] (None, 0, -1) = Inr (bm, v, k)"
    by (auto split: sum.splits)
  show ?case
  proof (cases bm)
    case None
    with Cons.prems fb have "match_loop thr gt ds s = Inr s'" by simp
    from Cons.IH[OF this] show ?thesis using fb None by auto
  next
    case (Some g)
    with Cons.prems fb have run: "match_loop thr gt ds (record_match d g v k s) = Inr s'" by simp
    have m: "matched (record_match d g v k s) = insert (nat k) (matched s)"
      and t: "truePositives (record_match d g v k s) = truePositives s + 1"
      by (simp_all add: record_match_def)
    from Cons.IH[OF run] show ?thesis using fb Some unfolding m t by auto
  qed
qed

lemma matching_match_loop:
  "matching thr gt ds (matched s) = Inr asg \<Longrightarrow> \<exists>s'. match_loop thr gt ds s = Inr s'"
proof (induction ds arbitrary: s asg)
  case Nil then show ?case by auto
next
  case (Cons d ds)
  from Cons.prems obtain bm v k where fb:
    "find_best thr (matched s) d gt [0..<length gt] (None, 0, -1) = Inr (bm, v, k)"
    by (auto split: sum.splits)
  show ?case
  proof (cases bm)
    case None
    with Cons.prems fb obtain asg' where "matching thr gt ds (matched s) = Inr asg'"
      by (auto split: sum.splits)
    from Cons.IH[OF this] show ?thesis using fb None by auto
  next
    case (Some g)
    have m: "matched (record_match d g v k s) = insert (nat k) (matched s)"
      by (simp add: record_match_def)
    from Some Cons.prems fb obtain asg' where
      "matching thr gt ds (matched (record_match d g v k s)) = Inr asg'"
      unfolding m by (auto split: sum.splits)
    from Cons.IH[OF this] show ?thesis using fb Some by auto
  qed
qed

lemma matching_total:
  "\<forall>g\<in>set gt. bounding_box g \<noteq> None \<Longrightarrow> \<exists>asg. matching thr gt ds M = Inr asg"
proof (induction ds arbitrary: M)
  case Nil then show ?case by simp
next
  case (Cons d ds)
  have "\<forall>i\<in>set [0..<length gt]. eligible M d gt i \<longrightarrow> bounding_box (gt ! i) \<noteq> None"
    using Cons.prems by simp
  from find_best_total[OF this] obtain bm v k where fb:
    "find_best thr M d gt [0..<length gt] (None, 0, -1) = Inr (bm, v, k)"
    by (metis prod_cases3)
  show ?case
  proof (cases bm)
    case None
    from Cons.IH[OF Cons.prems, of M] show ?thesis using fb None by auto
  next
    case (Some g)
    from Cons.IH[OF Cons.prems, of "insert (nat k) M"] show ?thesis using fb Some by auto
  qed
qed

section \<open>Two thresholds side by side\<close>

lemma find_best_lockstep:
  assumes "B \<subseteq> A" "t1 \<le> t2"
  shows "find_best t1 A d gt js (bm1, v1, k1) = Inr r1 \<Longrightarrow>
         find_best t2 B d gt js (bm2, v2, k2) = Inr r2 \<Longrightarrow>
         lock A t2 (bm1, v1, k1) (bm2, v2, k2) \<Longrightarrow> lock A t2 r1 r2"
proof (induction js arbitrary: bm1 v1 k1 bm2 v2 k2)
  case Nil
  then show ?case by simp
next
  case (Cons i js)
  note run1 = Cons.prems(1) and run2 = Cons.prems(2) and inv = Cons.prems(3)
  show ?case
  proof (cases "i \<in> A")
    case inA: True
    then have r1: "find_best t1 A d gt js (bm1, v1, k1) = Inr r1" using run1 by simp
    show ?thesis
    proof (cases "i \<in> B \<or> type_name (shape_type d) \<noteq> gt_type (gt ! i)")
      case True
      then have r2: "find_best t2 B d gt js (bm2, v2, k2) = Inr r2"
        using run2 by (auto split: if_splits)
      from Cons.IH[OF r1 r2 inv] show ?thesis .
    next
      case False
      then obtain b where b: "bounding_box (gt ! i) = Some b"
        using run2 by (auto split: option.splits)
      let ?u = "calculateIoU (boundingBox d) b"
      show ?thesis
      proof (cases "?u > v2 \<and> ?u > t2")
        case True
        then have r2: "find_best t2 B d gt js (Some (gt ! i), ?u, int i) = Inr r2"
          using run2 False b by simp
        have "lock A t2 (bm1, v1, k1) (Some (gt ! i), ?u, int i)"
          using inv True inA by auto
        from Cons.IH[OF r1 r2 this] show ?thesis .
      next
        case noupd: False
        then have r2: "find_best t2 B d gt js (bm2, v2, k2) = Inr r2"
          using run2 False b by auto
        from Cons.IH[OF r1 r2 inv] show ?thesis .
      qed
    qed
  next
    case notA: False
    then have notB: "i \<notin> B" using assms(1) by auto
    show ?thesis
    proof (cases "type_name (shape_type d) \<noteq> gt_type (gt ! i)")
      case True
      then have r1: "find_best t1 A d gt js (bm1, v1, k1) = Inr r1"
        and r2: "find_best t2 B d gt js (bm2, v2, k2) = Inr r2"
        using run1 run2 notA notB by auto
      from Cons.IH[OF r1 r2 inv] show ?thesis .
    next
      case same: False
      then obtain b where b: "bounding_box (gt ! i) = Some b"
        using run2 notB by (auto split: option.splits)
      let ?u = "calculateIoU (boundingBox d) b"
      consider (both) "?u > v1 \<and> ?u > t1" "?u > v2 \<and> ?u > t2"
        | (only1) "?u > v1 \<and> ?u > t1" "\<not> (?u > v2 \<and> ?u > t2)"
        | (only2) "\<not> (?u > v1 \<and> ?u > t1)" "?u > v2 \<and> ?u > t2"
        | (neither) "\<not> (?u > v1 \<and> ?u > t1)" "\<not> (?u > v2 \<and> ?u > t2)"
        by blast
      then show ?thesis
      proof cases
        case both
        then have r1: "find_best t1 A d gt js (Some (gt ! i), ?u, int i) = Inr r1"
          and r2: "find_best t2 B d gt js (Some (gt ! i), ?u, int i) = Inr r2"
          using run1 run2 notA notB same b by auto
        have "lock A t2 (Some (gt ! i), ?u, int i) (Some (gt ! i), ?u, int i)"
          using both by simp
        from Cons.IH[OF r1 r2 this] show ?thesis .
      next
        case only1
        then have r1: "find_best t1 A d gt js (Some (gt ! i), ?u, int i) = Inr r1"
          and r2: "find_best t2 B d gt js (bm2, v2, k2) = Inr r2"
          using run1 run2 notA notB same b by auto
        have "lock A t2 (Some (gt ! i), ?u, int i) (bm2, v2, k2)"
          using inv only1 by auto
        from Cons.IH[OF r1 r2 this] show ?thesis .
      next
        case only2
        then have "?u \<le> v1" using assms(2) by auto
        with only2(2) inv have False by auto
        then show ?thesis ..
      next
        case neither
        then have r1: "find_best t1 A d gt js (bm1, v1, k1) = Inr r1"
          and r2: "find_best t2 B d gt js (bm2, v2, k2) = Inr r2"
          using run1 run2 notA notB same b by auto
        from Cons.IH[OF r1 r2 inv] show ?thesis .
      qed
    qed
  qed
qed

lemma match_loop_lockstep:
  assumes "t1 \<le> t2"
  shows "match_loop t1 gt ds s1 = Inr s1' \<Longrightarrow> match_loop t2 gt ds s2 = Inr s2' \<Longrightarrow>
         matched s2 \<subseteq> matched s1 \<Longrightarrow> matched s2' \<subseteq> matched s1'"
proof (induction ds arbitrary: s1 s2)
  case Nil
  then show ?case by simp
next
  case (Cons d ds)
  from Cons.prems(1) obtain bm1 v1 k1 where fb1:
    "find_best t1 (matched s1) d gt [0..<length gt] (None, 0, -1) = Inr (bm1, v1, k1)"
    by (auto split: sum.splits)
  from Cons.prems(2) obtain bm2 v2 k2 where fb2:
    "find_best t2 (matched s2) d gt [0..<length gt] (None, 0, -1) = Inr (bm2, v2, k2)"
    by (auto split: sum.splits)
  have "lock (matched s1) t2 (None, 0, -1) (None, 0, -1)" by simp
  from find_best_lockstep[OF Cons.prems(3) assms fb1 fb2 this]
  have L: "lock (matched s1) t2 (bm1, v1, k1) (bm2, v2, k2)" .
  define s1n where "s1n = (case bm1 of None \<Rightarrow> s1 | Some g \<Rightarrow> record_match d g v1 k1 s1)"
  define s2n where "s2n = (case bm2 of None \<Rightarrow> s2 | Some g \<Rightarrow> record_match d g v2 k2 s2)"
  have r1: "match_loop t1 gt ds s1n = Inr s1'"
    using Cons.prems(1) fb1 by (auto simp: s1n_def split: option.splits)
  have r2: "match_loop t2 gt ds s2n = Inr s2'"
    using Cons.prems(2) fb2 by (auto simp: s2n_def split: option.splits)
  have m1: "matched s1n = (case bm1 of None \<Rightarrow> matched s1 | Some g \<Rightarrow> insert (nat k1) (matched s1))"
    by (simp add: s1n_def record_match_def split: option.splits)
  have m2: "matched s2n = (case bm2 of None \<Rightarrow> matched s2 | Some g \<Rightarrow> insert (nat k2) (matched s2))"
    by (simp add: s2n_def record_match_def split: option.splits)
  have "matched s2n \<subseteq> matched s1n"
    using L Cons.prems(3) unfolding m1 m2 by (auto split: option.splits)
  from Cons.IH[OF r1 r2 this] show ?case .
qed

lemma match_loop_card:
  "match_loop thr gt ds s = Inr s' \<Longrightarrow> finite (matched s) \<Longrightarrow>
     truePositives s = card (matched s) \<Longrightarrow>
     finite (matched s') \<and> truePositives s' = card (matched s')"
proof (induction ds arbitrary: s)
  case Nil
  then show ?case by simp
next
  case (Cons d ds)
  from Cons.prems(1) obtain bm v k where fb:
    "find_best thr (matched s) d gt [0..<length gt] (None, 0, -1) = Inr (bm, v, k)"
    by (auto split: sum.splits)
  show ?case
  proof (cases bm)
    case None
    with Cons.prems fb have "match_loop thr gt ds s = Inr s'" by simp
    from Cons.IH[OF this Cons.prems(2,3)] show ?thesis .
  next
    case (Some g)
    with Cons.prems fb have run: "match_loop thr gt ds (record_match d g v k s) = Inr s'" by simp
    from find_best_init_Some[OF fb[unfolded Some]] have new: "nat k \<notin> matched s"
      by (auto simp: eligible_def)
    have m: "matched (record_match d g v k s) = insert (nat k) (matched s)"
      and t: "truePositives (record_match d g v k s) = truePositives s + 1"
      by (simp_all add: record_match_def)
    have "finite (matched (record_match d g v k s))"
      "truePositives (record_match d g v k s) = card (matched (record_match d g v k s))"
      unfolding m t using Cons.prems(2,3) new by simp_all
    from Cons.IH[OF run this] show ?thesis .
  qed
qed

lemma init_state_matched [simp]: "matched init_state = {}" "truePositives init_state = 0"
  by (simp_all add: init_state_def)

lemma tp_mono_aux:
  assumes "t1 \<le> t2"
    and "match_loop t1 gt det init_state = Inr s1"
    and "match_loop t2 gt det init_state = Inr s2"
  shows "truePositives s2 \<le> truePositives s1"
proof -
  have sub: "matched s2 \<subseteq> matched s1"
    by (rule match_loop_lockstep[OF assms]) simp
  have c1: "finite (matched s1)" "truePositives s1 = card (matched s1)"
    using match_loop_card[OF assms(2)] by simp_all
  have c2: "truePositives s2 = card (matched s2)"
    using match_loop_card[OF assms(3)] by simp
  show ?thesis unfolding c1(2) c2 by (rule card_mono[OF c1(1) sub])
qed

lemma match_loop_total:
  "\<forall>g\<in>set gt. bounding_box g \<noteq> None \<Longrightarrow> \<exists>s'. match_loop thr gt ds s = Inr s'"
  using matching_total[of gt thr ds "matched s"] matching_match_loop by blast

section \<open>When evaluateDetection returns\<close>

lemma boxes_present_Cons:
  "boxes_present (d # ds) gt \<longleftrightarrow>
     (\<forall>g\<in>set gt. gt_type g = type_name (shape_type d) \<longrightarrow> bounding_box g \<noteq> None)
     \<and> boxes_present ds gt"
  by (auto simp: boxes_present_def)

lemma match_loop_returns:
  "boxes_present ds gt \<Longrightarrow> \<exists>s'. match_loop thr gt ds s = Inr s'"
proof (induction ds arbitrary: s)
  case Nil
  then show ?case by simp
next
  case (Cons d ds)
  then have d: "\<forall>g\<in>set gt. gt_type g = type_name (shape_type d) \<longrightarrow> bounding_box g \<noteq> None"
    and rest: "boxes_present ds gt"
    by (simp_all add: boxes_present_Cons)
  have "\<forall>i\<in>set [0..<length gt]. eligible (matched s) d gt i \<longrightarrow> bounding_box (gt ! i) \<noteq> None"
    using d by (simp add: eligible_def)
  from find_best_total[OF this] obtain bm v k where fb:
    "find_best thr (matched s) d gt [0..<length gt] (None, 0, -1) = Inr (bm, v, k)"
    by (metis prod_cases3)
  show ?case
  proof (cases bm)
    case None
    from Cons.IH[OF rest, of s] show ?thesis using fb None by auto
  next
    case (Some g)
    from Cons.IH[OF rest, of "record_match d g v k s"] show ?thesis using fb Some by auto
  qed
qed

lemma match_loop_boxes:
  "match_loop thr gt ds s = Inr s' \<Longrightarrow>
     (\<forall>i\<in>matched s. i < length gt \<longrightarrow> bounding_box (gt ! i) \<noteq> None) \<Longrightarrow>
     boxes_present ds gt"
proof (induction ds arbitrary: s)
  case Nil
  then show ?case by (simp add: boxes_present_def)
next
  case (Cons d ds)
  from Cons.prems(1) obtain bm v k where fb:
    "find_best thr (matched s) d gt [0..<length gt] (None, 0, -1) = Inr (bm, v, k)"
    by (auto split: sum.splits)
  have here: "\<forall>g\<in>set gt. gt_type g = type_name (shape_type d) \<longrightarrow> bounding_box g \<noteq> None"
  proof (intro ballI impI)
    fix g assume g: "g \<in> set gt" "gt_type g = type_name (shape_type d)"
    then obtain i where i: "i < length gt" "gt ! i = g" by (auto simp: in_set_conv_nth)
    show "bounding_box g \<noteq> None"
    proof (cases "i \<in> matched s")
      case True
      then show ?thesis using Cons.prems(2) i by auto
    next
      case False
      then have "eligible (matched s) d gt i" using g i by (simp add: eligible_def)
      from find_best_bbox[OF fb _ this] i show ?thesis by simp
    qed
  qed
  have rest: "boxes_present ds gt"
  proof (cases bm)
    case None
    with Cons.prems fb have "match_loop thr gt ds s = Inr s'" by simp
    from Cons.IH[OF this Cons.prems(2)] show ?thesis .
  next
    case (Some g)
    with Cons.prems fb have run: "match_loop thr gt ds (record_match d g v k s) = Inr s'" by simp
    from find_best_init_Some[OF fb[unfolded Some]]
    have new: "bounding_box (gt ! nat k) \<noteq> None" by auto
    have m: "matched (record_match d g v k s) = insert (nat k) (matched s)"
      by (simp add: record_match_def)
    have "\<forall>i\<in>matched (record_match d g v k s). i < length gt \<longrightarrow> bounding_box (gt ! i) \<noteq> None"
      unfolding m using new Cons.prems(2) by auto
    from Cons.IH[OF run this] show ?thesis .
  qed
  from here rest show ?case by (simp add: boxes_present_Cons)
qed

text \<open>\<open>evaluateDetection\<close> returns exactly when the boxes it reads are present.\<close>

lemma evaluateDetection_returns_iff:
  "(\<exists>m. evaluateDetection_at thr detected groundTruth imageName = Inr m)
     \<longleftrightarrow> boxes_present detected groundTruth"
proof
  assume "\<exists>m. evaluateDetection_at thr detected groundTruth imageName = Inr m"
  then obtain s where "match_loop thr groundTruth detected init_state = Inr s"
    by (auto simp: evaluateDetection_at_def split: sum.splits)
  from match_loop_boxes[OF this] show "boxes_present detected groundTruth" by simp
next
  assume "boxes_present detected groundTruth"
  from match_loop_returns[OF this, of thr init_state]
  show "\<exists>m. evaluateDetection_at thr detected groundTruth imageName = Inr m"
    by (auto simp: evaluateDetection_at_def)
qed

section \<open>Claims about evaluateDetection\<close>

lemmas iou_defs = calculateIoU_def iou_x1_def iou_x2_def iou_y1_def iou_y2_def
  iou_intersection_def iou_union_def

lemmas example_defs = example_detected_def example_groundTruth_def circle_at_def
  gt_circle_at_def gt_star_no_box_def unit_box_def

lemma upt_0_3: "[0..<3] = [0, 1, 2]"
  by (simp add: upt_rec)

lemma example_boxes_present: "boxes_present example_detected example_groundTruth"
  by (simp add: example_defs boxes_present_def)

lemma example_matching:
  "matching (1/2) example_groundTruth example_detected {} = Inr [Some 1, Some 0]"
  by (simp add: example_defs upt_0_3 iou_defs)

text \<open>
  C3: \<open>evaluateDetection\<close> handles the detections in order.  Each detection takes a
  ground-truth shape of its own type that no earlier detection has taken, whose IoU with it
  is strictly greater than 0.5 and is the largest among the shapes of its type not yet
  taken; it takes nothing only when no such shape has an IoU above 0.5.  No ground-truth
  index is taken by two detections.  The set \<open>matched\<close> and the counter \<open>truePositives\<close> of
  the source are the taken indices and their number.
\<close>

theorem matching_greedy_injective:
  assumes "boxes_present detected groundTruth"
  shows "\<exists>s asg. match_loop (1/2) groundTruth detected init_state = Inr s
           \<and> matching (1/2) groundTruth detected {} = Inr asg
           \<and> length asg = length detected
           \<and> (\<forall>j<length detected.
                 greedy_choice (1/2) groundTruth (detected ! j) (assigned_before asg j) (asg ! j))
           \<and> (\<forall>j<length detected. \<forall>k<length detected. \<forall>i.
                 asg ! j = Some i \<and> asg ! k = Some i \<longrightarrow> j = k)
           \<and> matched s = {i. Some i \<in> set asg}
           \<and> truePositives s = length (filter (\<lambda>a. a \<noteq> None) asg)"
proof -
  from match_loop_returns[OF assms, of "1/2" init_state] obtain s where
    s: "match_loop (1/2) groundTruth detected init_state = Inr s" by blast
  from match_loop_matching[OF s] obtain asg where
    asg: "matching (1/2) groundTruth detected {} = Inr asg"
    and m: "matched s = {i. Some i \<in> set asg}"
    and t: "truePositives s = length (filter (\<lambda>a. a \<noteq> None) asg)"
    by auto
  have thr: "(0::real) \<le> 1/2" by simp
  from matching_greedy[OF thr asg] have len: "length asg = length detected"
    and g: "\<forall>j<length detected.
              greedy_choice (1/2) groundTruth (detected ! j) ({} \<union> assigned_before asg j) (asg ! j)"
    by auto
  have inj: "\<forall>j<length detected. \<forall>k<length detected. \<forall>i.
                 asg ! j = Some i \<and> asg ! k = Some i \<longrightarrow> j = k"
    using matching_injective[OF thr asg] by blast
  from s asg len g inj m t show ?thesis by auto
qed

text \<open>
  On the example the first detection takes the second circle (IoU 1 against 9/11 for the
  first) and the second detection the first circle.
\<close>

theorem matching_greedy_injective_witness:
  "boxes_present example_detected example_groundTruth
   \<and> (\<exists>s. match_loop (1/2) example_groundTruth example_detected init_state = Inr s
          \<and> matching (1/2) example_groundTruth example_detected {} = Inr [Some 1, Some 0]
          \<and> greedy_choice (1/2) example_groundTruth (example_detected ! 1)
               (assigned_before [Some 1, Some 0] 1) (Some 0)
          \<and> matched s = {0, 1} \<and> truePositives s = 2)"
proof -
  from matching_greedy_injective[OF example_boxes_present] obtain s asg where
    h: "match_loop (1/2) example_groundTruth example_detected init_state = Inr s"
       "matching (1/2) example_groundTruth example_detected {} = Inr asg"
       "\<forall>j<length example_detected.
           greedy_choice (1/2) example_groundTruth (example_detected ! j)
             (assigned_before asg j) (asg ! j)"
       "matched s = {i. Some i \<in> set asg}"
       "truePositives s = length (filter (\<lambda>a. a \<noteq> None) asg)"
    by blast
  from h(2) have asg: "asg = [Some 1, Some 0]" by (simp add: example_matching)
  have "1 < length example_detected" by (simp add: example_detected_def)
  from h(3)[rule_format, OF this]
  have "greedy_choice (1/2) example_groundTruth (example_detected ! 1)
               (assigned_before [Some 1, Some 0] 1) (Some 0)"
    unfolding asg by simp
  moreover have "matched s = {0, 1}" using h(4) unfolding asg by auto
  moreover have "truePositives s = 2" using h(5) unfolding asg by simp
  ultimately show ?thesis using h(1) example_matching example_boxes_present by blast
qed

text \<open>
  C6: with the threshold of \<open>evaluateDetection\<close> as a parameter, raising it never raises the
  number of true positives: for \<open>t1 \<le> t2\<close> both runs return and the counter of the run
  with \<open>t2\<close> is at most the counter of the run with \<open>t1\<close>.
\<close>

theorem true_positives_antimono:
  assumes "t1 \<le> t2" and "boxes_present detected groundTruth"
  shows "\<exists>s1 s2. match_loop t1 groundTruth detected init_state = Inr s1
           \<and> match_loop t2 groundTruth detected init_state = Inr s2
           \<and> truePositives s2 \<le> truePositives s1"
proof -
  from match_loop_returns[OF assms(2), of t1 init_state] obtain s1 where
    s1: "match_loop t1 groundTruth detected init_state = Inr s1" by blast
  from match_loop_returns[OF assms(2), of t2 init_state] obtain s2 where
    s2: "match_loop t2 groundTruth detected init_state = Inr s2" by blast
  from tp_mono_aux[OF assms(1) s1 s2] s1 s2 show ?thesis by blast
qed

lemma example_tp_half:
  "match_loop (1/2) example_groundTruth [circle_at 1 1] init_state = Inr s \<Longrightarrow> truePositives s = 1"
  by (auto simp: example_defs upt_0_3 iou_defs record_match_def init_state_def)

lemma example_tp_high:
  "match_loop (9/10) example_groundTruth [circle_at 1 1] init_state = Inr s \<Longrightarrow> truePositives s = 0"
  by (auto simp: example_defs upt_0_3 iou_defs record_match_def init_state_def)

text \<open>
  A circle detected at \<open>(1,1)\<close> overlaps the ground-truth circle at \<open>(1,0)\<close> with IoU 9/11:
  a true positive at threshold 1/2, none at threshold 9/10.
\<close>

theorem true_positives_antimono_witness:
  "\<exists>s1 s2. match_loop (1/2) example_groundTruth [circle_at 1 1] init_state = Inr s1
         \<and> match_loop (9/10) example_groundTruth [circle_at 1 1] init_state = Inr s2
         \<and> truePositives s2 \<le> truePositives s1 \<and> truePositives s1 = 1 \<and> truePositives s2 = 0"
proof -
  have le: "(1/2 :: real) \<le> 9/10" by simp
  have bp: "boxes_present [circle_at 1 1] example_groundTruth"
    by (simp add: example_defs boxes_present_def)
  from true_positives_antimono[OF le bp] obtain s1 s2 where
    h: "match_loop (1/2) example_groundTruth [circle_at 1 1] init_state = Inr s1"
       "match_loop (9/10) example_groundTruth [circle_at 1 1] init_state = Inr s2"
       "truePositives s2 \<le> truePositives s1"
    by blast
  from h example_tp_half[OF h(1)] example_tp_high[OF h(2)] show ?thesis by blast
qed

section \<open>Claims about the metrics and the score\<close>

lemma match_loop_Nil_tp: "match_loop thr gt [] init_state = Inr s \<Longrightarrow> truePositives s = 0"
  by auto

lemma metrics_of_prf:
  "precision (metrics_of det gt s) =
     (if det = [] then 0 else real (truePositives s) / real (length det))"
  "recall (metrics_of det gt s) =
     (if gt = [] then 1 else real (truePositives s) / real (length gt))"
  "f1_score (metrics_of det gt s) =
     (if precision (metrics_of det gt s) + recall (metrics_of det gt s) = 0 then 0
      else 2 * precision (metrics_of det gt s) * recall (metrics_of det gt s)
             / (precision (metrics_of det gt s) + recall (metrics_of det gt s)))"
proof -
  show p: "precision (metrics_of det gt s) =
     (if det = [] then 0 else real (truePositives s) / real (length det))"
    by (simp add: metrics_of_def Let_def)
  show r: "recall (metrics_of det gt s) =
     (if gt = [] then 1 else real (truePositives s) / real (length gt))"
    by (simp add: metrics_of_def Let_def)
  have p0: "0 \<le> precision (metrics_of det gt s)" unfolding p by simp
  have r0: "0 \<le> recall (metrics_of det gt s)" unfolding r by simp
  have pos: "precision (metrics_of det gt s) + recall (metrics_of det gt s) > 0
       \<longleftrightarrow> precision (metrics_of det gt s) + recall (metrics_of det gt s) \<noteq> 0"
    using p0 r0 by linarith
  have "f1_score (metrics_of det gt s) =
     (if precision (metrics_of det gt s) + recall (metrics_of det gt s) > 0
      then 2 * (precision (metrics_of det gt s) * recall (metrics_of det gt s))
             / (precision (metrics_of det gt s) + recall (metrics_of det gt s)) else 0)"
    by (simp add: metrics_of_def Let_def)
  then show "f1_score (metrics_of det gt s) =
     (if precision (metrics_of det gt s) + recall (metrics_of det gt s) = 0 then 0
      else 2 * precision (metrics_of det gt s) * recall (metrics_of det gt s)
             / (precision (metrics_of det gt s) + recall (metrics_of det gt s)))"
    unfolding pos by (simp add: mult.assoc)
qed

text \<open>
  C4: \<open>evaluateDetection\<close> returns precision = TP/|detected|, and 0 for no detections;
  recall = TP/|groundTruth|, and 1 for no ground truth; F1 = 2PR/(P+R), and 0 when P+R = 0,
  where TP is the counter \<open>truePositives\<close> at the end of the matching loop.  With no
  detections and some ground truth all three are 0.
\<close>

theorem evaluateDetection_precision_recall_f1:
  assumes "boxes_present detected groundTruth"
  shows "\<exists>s m. match_loop (1/2) groundTruth detected init_state = Inr s
           \<and> evaluateDetection detected groundTruth imageName = Inr m
           \<and> precision m = (if detected = [] then 0
                            else real (truePositives s) / real (length detected))
           \<and> recall m = (if groundTruth = [] then 1
                         else real (truePositives s) / real (length groundTruth))
           \<and> f1_score m = (if precision m + recall m = 0 then 0
                           else 2 * precision m * recall m / (precision m + recall m))
           \<and> (detected = [] \<and> groundTruth \<noteq> []
                \<longrightarrow> precision m = 0 \<and> recall m = 0 \<and> f1_score m = 0)"
proof -
  from match_loop_returns[OF assms, of "1/2" init_state] obtain s where
    s: "match_loop (1/2) groundTruth detected init_state = Inr s" by blast
  let ?m = "metrics_of detected groundTruth s"
  have m: "evaluateDetection detected groundTruth imageName = Inr ?m"
    using s by (simp add: evaluateDetection_def evaluateDetection_at_def)
  have sc: "detected = [] \<and> groundTruth \<noteq> []
                \<longrightarrow> precision ?m = 0 \<and> recall ?m = 0 \<and> f1_score ?m = 0"
  proof
    assume e: "detected = [] \<and> groundTruth \<noteq> []"
    with s have "truePositives s = 0" by (auto simp: init_state_def)
    with e show "precision ?m = 0 \<and> recall ?m = 0 \<and> f1_score ?m = 0"
      by (simp add: metrics_of_prf)
  qed
  from s m metrics_of_prf[of detected groundTruth s] sc show ?thesis by blast
qed

text \<open>
  The scenario of the specification, one ground-truth circle with the box \<open>(0,0,10,10)\<close> and
  no detection; and the example, where both detections are matched against three
  ground-truth shapes.
\<close>

theorem evaluateDetection_precision_recall_f1_witness:
  "(\<exists>m. evaluateDetection [] [gt_circle_at 0 0] ''img'' = Inr m
        \<and> precision m = 0 \<and> recall m = 0 \<and> f1_score m = 0)
   \<and> (\<exists>m. evaluateDetection example_detected example_groundTruth ''img'' = Inr m
        \<and> precision m = 1 \<and> recall m = 2/3 \<and> f1_score m = 4/5)"
proof -
  have b0: "boxes_present [] [gt_circle_at 0 0]" by (simp add: boxes_present_def)
  from evaluateDetection_precision_recall_f1[OF b0, of "''img''"]
  have 1: "\<exists>m. evaluateDetection [] [gt_circle_at 0 0] ''img'' = Inr m
        \<and> precision m = 0 \<and> recall m = 0 \<and> f1_score m = 0"
    by auto
  from evaluateDetection_precision_recall_f1[OF example_boxes_present, of "''img''"]
  obtain s m where
    h: "match_loop (1/2) example_groundTruth example_detected init_state = Inr s"
       "evaluateDetection example_detected example_groundTruth ''img'' = Inr m"
       "precision m = (if example_detected = [] then 0
                       else real (truePositives s) / real (length example_detected))"
       "recall m = (if example_groundTruth = [] then 1
                    else real (truePositives s) / real (length example_groundTruth))"
       "f1_score m = (if precision m + recall m = 0 then 0
                      else 2 * precision m * recall m / (precision m + recall m))"
    by blast
  from match_loop_matching[OF h(1)] have tp: "truePositives s = 2"
    by (simp add: example_matching)
  have p: "precision m = 1" using h(3) tp by (simp add: example_detected_def)
  have r: "recall m = 2/3" using h(4) tp by (simp add: example_groundTruth_def)
  have f: "f1_score m = 4/5" using h(5) unfolding p r by simp
  from 1 h(2) p r f show ?thesis by blast
qed

text \<open>The points \<open>calculateScore\<close> gives for the processing time.\<close>

lemma calculateScore_zero_metrics:
  assumes "f1_score ev = 0" "average_iou ev = 0" "center_point_accuracy ev = 0"
    "area_accuracy ev = 0"
  shows "sr_score (calculateScore ev dr) =
           15 + (if processingTime dr \<le> 500 then 10 else if processingTime dr \<le> 1000 then 8
                 else if processingTime dr \<le> 2000 then 5 else 0)"
  using assms by (simp add: calculateScore_def Let_def)

lemma metrics_of_zero_tp:
  assumes "truePositives s = 0"
  shows "average_iou (metrics_of det gt s) = 0" "center_point_accuracy (metrics_of det gt s) = 0"
    "area_accuracy (metrics_of det gt s) = 0" "confidence_calibration (metrics_of det gt s) = 0"
    "f1_score (metrics_of det gt s) = 0"
  using assms by (simp_all add: metrics_of_def Let_def)

text \<open>
  C9: when the loop ends with \<open>truePositives = 0\<close>, \<open>evaluateDetection\<close> returns 0 for
  \<open>center_point_accuracy\<close>, \<open>average_iou\<close>, \<open>area_accuracy\<close> and \<open>confidence_calibration\<close>.
  \<open>calculateScore\<close> then gives 15 points for the centre accuracy, nothing for F1, IoU and
  area, and the points for the processing time: 15 to 25 points, 25 for a processing time
  of at most 500 ms.
\<close>

theorem zero_matches_score:
  assumes "match_loop (1/2) groundTruth detected init_state = Inr s"
    and "truePositives s = 0"
  shows "\<exists>m. evaluateDetection detected groundTruth imageName = Inr m
           \<and> center_point_accuracy m = 0 \<and> average_iou m = 0
           \<and> area_accuracy m = 0 \<and> confidence_calibration m = 0
           \<and> sr_score (calculateScore (m\<lparr>processing_time := processingTime dr\<rparr>) dr) =
               15 + (if processingTime dr \<le> 500 then 10 else if processingTime dr \<le> 1000 then 8
                     else if processingTime dr \<le> 2000 then 5 else 0)
           \<and> 15 \<le> sr_score (calculateScore (m\<lparr>processing_time := processingTime dr\<rparr>) dr)
           \<and> sr_score (calculateScore (m\<lparr>processing_time := processingTime dr\<rparr>) dr) \<le> 25
           \<and> (processingTime dr \<le> 500 \<longrightarrow>
                sr_score (calculateScore (m\<lparr>processing_time := processingTime dr\<rparr>) dr) = 25)"
proof -
  let ?m = "metrics_of detected groundTruth s"
  have m: "evaluateDetection detected groundTruth imageName = Inr ?m"
    using assms(1) by (simp add: evaluateDetection_def evaluateDetection_at_def)
  note z = metrics_of_zero_tp[OF assms(2), of detected groundTruth]
  have sc: "sr_score (calculateScore (?m\<lparr>processing_time := processingTime dr\<rparr>) dr) =
               15 + (if processingTime dr \<le> 500 then 10 else if processingTime dr \<le> 1000 then 8
                     else if processingTime dr \<le> 2000 then 5 else 0)"
    by (rule calculateScore_zero_metrics) (simp_all add: z)
  show ?thesis using m z(1-4) sc by auto
qed

text \<open>
  A circle detected far from every ground-truth shape: no match, and with a processing
  time of 20 ms the image still gets 25 points.
\<close>

theorem zero_matches_score_witness:
  "\<exists>s m. match_loop (1/2) example_groundTruth [circle_at 100 100] init_state = Inr s
     \<and> truePositives s = 0
     \<and> evaluateDetection [circle_at 100 100] example_groundTruth ''img'' = Inr m
     \<and> center_point_accuracy m = 0
     \<and> sr_score (calculateScore (m\<lparr>processing_time := 20\<rparr>)
          \<lparr>shapes = [circle_at 100 100], processingTime = 20, imageWidth = 200,
            imageHeight = 200\<rparr>) = 25"
proof -
  have s: "match_loop (1/2) example_groundTruth [circle_at 100 100] init_state = Inr init_state"
    by (simp add: example_defs upt_0_3 iou_defs)
  have t: "truePositives init_state = 0" by simp
  from zero_matches_score[OF s t, of "''img''"
      "\<lparr>shapes = [circle_at 100 100], processingTime = 20, imageWidth = 200, imageHeight = 200\<rparr>"]
  show ?thesis using s t by auto
qed

section \<open>Claims about the batch score\<close>

lemma calculateScore_score:
  "sr_score (calculateScore evaluation detection) \<le> 100"
  "sr_passed (calculateScore evaluation detection)
     \<longleftrightarrow> 60 \<le> sr_score (calculateScore evaluation detection)"
  by (simp_all add: calculateScore_def Let_def)

lemma image_score_le: "image_score img \<le> 100"
  by (auto simp: image_score_def calculateScore_score split: sum.splits prod.splits)

lemma test_image_effect:
  "totalScore (test_image st img) = totalScore st + image_score img"
  "\<exists>t. testResults (test_image st img) = testResults st @ [t]
       \<and> tr_passed t = (60 \<le> image_score img)"
  by (auto simp: test_image_def image_score_def failed_result_def Let_def
        calculateScore_score split: sum.splits prod.splits)

lemma foldl_test_image:
  "totalScore (foldl test_image st images) = totalScore st + score_sum images
   \<and> map tr_passed (testResults (foldl test_image st images)) =
       map tr_passed (testResults st) @ map (\<lambda>img. 60 \<le> image_score img) images"
proof (induction images arbitrary: st)
  case Nil
  then show ?case by (simp add: score_sum_def)
next
  case (Cons img images)
  obtain t where t: "testResults (test_image st img) = testResults st @ [t]"
    "tr_passed t = (60 \<le> image_score img)"
    using test_image_effect(2) by blast
  show ?case
    using Cons.IH[of "test_image st img"] t
    by (simp add: test_image_effect(1) score_sum_def)
qed

lemma run_totals:
  "totalScore (foldl test_image init_run images) = score_sum images"
  "map tr_passed (testResults (foldl test_image init_run images))
     = map (\<lambda>img. 60 \<le> image_score img) images"
  "length (testResults (foldl test_image init_run images)) = length images"
proof -
  show 1: "totalScore (foldl test_image init_run images) = score_sum images"
    using foldl_test_image[of init_run images] by (simp add: init_run_def)
  show 2: "map tr_passed (testResults (foldl test_image init_run images))
     = map (\<lambda>img. 60 \<le> image_score img) images"
    using foldl_test_image[of init_run images] by (simp add: init_run_def)
  from arg_cong[OF 2, of length]
  show "length (testResults (foldl test_image init_run images)) = length images" by simp
qed

lemma score_sum_le: "score_sum images \<le> 100 * length images"
proof (induction images)
  case Nil
  then show ?case by (simp add: score_sum_def)
next
  case (Cons img images)
  then show ?case using image_score_le[of img] by (simp add: score_sum_def)
qed

lemma batch_percentage_run:
  "batch_percentage (foldl test_image init_run images)
     = js_mul (js_div (Num (real (score_sum images))) (Num (real (length images * 100))))
         (Num 100)"
  by (simp add: batch_percentage_def Let_def run_totals)

lemma run_results:
  "or_grade (runSelectedEvaluation images)
     = calculateGrade (batch_percentage (foldl test_image init_run images))"
  "or_percentage (runSelectedEvaluation images)
     = js_div (js_math_round (js_mul (batch_percentage (foldl test_image init_run images))
                                 (Num 100))) (Num 100)"
  "map tr_passed (or_testResults (runSelectedEvaluation images))
     = map (\<lambda>img. 60 \<le> image_score img) images"
  by (simp_all add: runSelectedEvaluation_def overall_results_def Let_def run_totals)

subsection \<open>The percentage of a batch that is not empty\<close>

lemma powr_neg_nat: "(2::real) powr (- real n) = 1 / 2 ^ n"
proof -
  have "(2::real) powr (- real n) = 1 / 2 powr real n" by (rule powr_minus_divide)
  also have "(2::real) powr real n = 2 ^ n" by (simp add: powr_realpow)
  finally show ?thesis .
qed

lemma percentage_value:
  assumes N: "0 < N" and S: "S \<le> 100 * N"
  defines "q \<equiv> spec_percentage S N"
  shows "js_mul (js_div (Num (real S)) (Num (real (N * 100)))) (Num 100)
           = Num (fl (fl q * 100))"
    and "0 \<le> fl (fl q * 100)" and "fl (fl q * 100) \<le> 100"
    and "\<bar>fl (fl q * 100) - 100 * q\<bar> \<le> 1 / 2 ^ 45"
proof -
  have big: "(100::real) < 2 ^ 1024"
  proof -
    have "(100::real) < 2 ^ 7" by simp
    also have "\<dots> < 2 ^ 1024" by (rule power_strict_increasing) simp_all
    finally show ?thesis .
  qed
  have q0: "0 \<le> q" by (simp add: q_def spec_percentage_def)
  have q1: "q \<le> 1"
  proof -
    have "real S \<le> real (100 * N)" using S by (simp only: of_nat_le_iff)
    then show ?thesis using N by (simp add: q_def spec_percentage_def divide_le_eq)
  qed
  from fl_unit_range[OF q0 q1] have f: "0 \<le> fl q" "fl q \<le> 1" by simp_all
  have rq: "round_js q = Num (fl q)" using f big by (simp add: round_js_def)
  have d: "js_div (Num (real S)) (Num (real (N * 100))) = Num (fl q)"
  proof -
    have "real S / real (N * 100) = q" by (simp add: q_def spec_percentage_def mult.commute)
    moreover have "real (N * 100) \<noteq> 0" using N by simp
    ultimately show ?thesis using rq by simp
  qed
  let ?x = "fl q * 100"
  have x: "0 \<le> ?x" "?x \<le> 100" using f by simp_all
  have zero: "fl 0 = 0" by simp
  have hundred: "fl 100 = 100" using fl_int[of 100] by simp
  show p0: "0 \<le> fl ?x" by (rule fl_ge_double[OF zero x(1)])
  show p1: "fl ?x \<le> 100" by (rule fl_le_double[OF hundred x(2)])
  have rx: "round_js ?x = Num (fl ?x)" using p0 p1 big by (simp add: round_js_def)
  show "js_mul (js_div (Num (real S)) (Num (real (N * 100)))) (Num 100) = Num (fl ?x)"
    unfolding d using rx by simp
  have e1: "\<bar>fl q - q\<bar> \<le> 1 / 2 ^ 53"
  proof -
    have "\<bar>q\<bar> < 2 powr real_of_int 1" using q0 q1 by simp
    from fl_error_below[OF this] have "\<bar>fl q - q\<bar> \<le> 2 powr (- real 53)" by simp
    then show ?thesis by (simp only: powr_neg_nat)
  qed
  have e2: "\<bar>fl ?x - ?x\<bar> \<le> 1 / 2 ^ 47"
  proof -
    have "\<bar>?x\<bar> < 2 powr real_of_int 7" using x by simp
    from fl_error_below[OF this] have "\<bar>fl ?x - ?x\<bar> \<le> 2 powr (- real 47)" by simp
    then show ?thesis by (simp only: powr_neg_nat)
  qed
  have "fl ?x - 100 * q = (fl ?x - ?x) + 100 * (fl q - q)" by simp
  then have "\<bar>fl ?x - 100 * q\<bar> \<le> \<bar>fl ?x - ?x\<bar> + \<bar>100 * (fl q - q)\<bar>"
    by (simp only: abs_triangle_ineq)
  also have "\<bar>100 * (fl q - q)\<bar> = 100 * \<bar>fl q - q\<bar>" by (subst abs_mult) simp
  finally have "\<bar>fl ?x - 100 * q\<bar> \<le> \<bar>fl ?x - ?x\<bar> + 100 * \<bar>fl q - q\<bar>" .
  also have "\<dots> \<le> 1 / 2 ^ 47 + 100 * (1 / 2 ^ 53)"
    by (intro add_mono mult_left_mono e1 e2) simp
  also have "\<dots> \<le> 1 / 2 ^ 45" by simp
  finally show "\<bar>fl ?x - 100 * q\<bar> \<le> 1 / 2 ^ 45" .
qed

lemma calculateGrade_bands:
  "calculateGrade (Num p) = ''A'' \<longleftrightarrow> 90 \<le> p"
  "calculateGrade (Num p) = ''B'' \<longleftrightarrow> 80 \<le> p \<and> p < 90"
  "calculateGrade (Num p) = ''C'' \<longleftrightarrow> 70 \<le> p \<and> p < 80"
  "calculateGrade (Num p) = ''D'' \<longleftrightarrow> 60 \<le> p \<and> p < 70"
  "calculateGrade (Num p) = ''F'' \<longleftrightarrow> p < 60"
  "calculateGrade NaN = ''F''"
  by (auto simp: calculateGrade_def)

subsection \<open>Example batches\<close>

lemmas run_defs = test_image_def init_run_def
  evaluateDetection_def evaluateDetection_at_def init_state_def record_match_def
  metrics_of_def calculateScore_def calculateDistance_def score_sum_def image_score_def
  perfect_image_def blank_image_def blank_image_after_def broken_image_def

lemma example_scores:
  "image_score perfect_image = 100" "image_score blank_image = 25"
  "image_score broken_image = 0"
  "image_score (blank_image_after 3000) = 15" "image_score (blank_image_after 1500) = 20"
  by (simp_all add: run_defs example_defs iou_defs upt_rec Let_def)

text \<open>
  For the batch of one image with score 100 the code computes the percentage 100, and the
  grade A from it, where \<open>\<Sigma>score / (100\<cdot>N)\<close> is 1.
\<close>

lemma perfect_image_run:
  "score_sum [perfect_image] = 100"
  "batch_percentage (foldl test_image init_run [perfect_image]) = Num 100"
  "or_grade (runSelectedEvaluation [perfect_image]) = ''A''"
  "spec_percentage 100 1 = 1"
proof -
  show s: "score_sum [perfect_image] = 100" by (simp add: score_sum_def example_scores)
  have "fl 1 = 1" "fl 100 = 100" using fl_int[of 1] fl_int[of 100] by simp_all
  moreover have "(100::real) < 2 ^ 1024"
  proof -
    have "(100::real) < 2 ^ 7" by simp
    also have "\<dots> < 2 ^ 1024" by (rule power_strict_increasing) simp_all
    finally show ?thesis .
  qed
  ultimately show b: "batch_percentage (foldl test_image init_run [perfect_image]) = Num 100"
    unfolding batch_percentage_run s by (simp add: round_js_def)
  show "or_grade (runSelectedEvaluation [perfect_image]) = ''A''"
    unfolding run_results b by (simp add: calculateGrade_def)
  show "spec_percentage 100 1 = 1" by (simp add: spec_percentage_def)
qed

text \<open>The roundings of \<open>(115 / 800) * 100\<close> and of its product with 100.\<close>

lemma eight_images_steps:
  "fl (23 / 160) = 2589569785738035 / 18014398509481984"
  "fl (64739244643450875 / 4503599627370496) = 8092405580431359 / 562949953421312"
  "fl (202310139510783975 / 140737488355328) = 6322191859711999 / 4398046511104"
proof -
  show "fl (23 / 160) = 2589569785738035 / 18014398509481984"
    using fl_eval_frac[of "23 / 160" 55 5179139571476070] by simp
  show "fl (64739244643450875 / 4503599627370496) = 8092405580431359 / 562949953421312"
    using fl_eval_frac[of "64739244643450875 / 4503599627370496" 49 8092405580431359] by simp
  show "fl (202310139510783975 / 140737488355328) = 6322191859711999 / 4398046511104"
    using fl_eval_frac[of "202310139510783975 / 140737488355328" 42 6322191859711999] by simp
qed

text \<open>
  C7 as stated fails on the percentage.  For the batch of eight images with scores summing
  to 115 the code computes \<open>(115 / 800) * 100\<close> on doubles, which is
  \<open>14.374999999999998\<close>: neither \<open>\<Sigma>score / (100\<cdot>N) = 0.14375\<close> nor a hundred times that,
  14.375.  The field \<open>percentage\<close> of the result is the double of 14.37.
\<close>

theorem batch_percentage_counterexample:
  "score_sum eight_images = 115 \<and> length eight_images = 8
   \<and> spec_percentage 115 8 = 23 / 160
   \<and> batch_percentage (foldl test_image init_run eight_images)
       = Num (8092405580431359 / 562949953421312)
   \<and> batch_percentage (foldl test_image init_run eight_images)
       \<noteq> Num (spec_percentage (score_sum eight_images) (length eight_images))
   \<and> batch_percentage (foldl test_image init_run eight_images)
       \<noteq> Num (100 * spec_percentage (score_sum eight_images) (length eight_images))
   \<and> or_percentage (runSelectedEvaluation eight_images) = Num (fl (1437 / 100))
   \<and> or_grade (runSelectedEvaluation eight_images) = ''F''"
proof -
  have s: "score_sum eight_images = 115"
    by (simp add: eight_images_def score_sum_def example_scores numeral_eq_Suc)
  have l: "length eight_images = 8" by (simp add: eight_images_def)
  have sp: "spec_percentage 115 8 = 23 / 160" by (simp add: spec_percentage_def)
  have big: "(1::real) < 2 ^ 1024" by (rule one_less_power) simp_all
  have b: "batch_percentage (foldl test_image init_run eight_images)
       = Num (8092405580431359 / 562949953421312)"
    unfolding batch_percentage_run s l using big
    by (simp add: round_js_def eight_images_steps)
  have m: "math_round (6322191859711999 / 4398046511104) = 1437"
    unfolding math_round_def by (simp add: floor_eq_iff)
  have f: "0 \<le> fl (1437 / 100) \<and> fl (1437 / 100) \<le> 100"
  proof -
    have "fl 0 = 0" "fl 100 = 100" using fl_int[of 100] by simp_all
    then show ?thesis
      using fl_ge_double[of 0 "1437 / 100"] fl_le_double[of 100 "1437 / 100"] by simp
  qed
  have h: "(100::real) < 2 ^ 1024"
  proof -
    have "(100::real) < 2 ^ 7" by simp
    also have "\<dots> < 2 ^ 1024" by (rule power_strict_increasing) simp_all
    finally show ?thesis .
  qed
  have o: "or_percentage (runSelectedEvaluation eight_images) = Num (fl (1437 / 100))"
    unfolding run_results b using big f h
    by (simp add: round_js_def eight_images_steps m)
  have g: "or_grade (runSelectedEvaluation eight_images) = ''F''"
    unfolding run_results b by (simp add: calculateGrade_def)
  from s l sp b o g show ?thesis by (simp add: spec_percentage_def)
qed

text \<open>
  C7, amended.  For a batch of \<open>N\<close> images whose scores sum to \<open>S\<close> the percentage is
  \<open>(S / (100\<cdot>N)) * 100\<close> on doubles: the quotient rounded, then the product rounded.  For
  \<open>N \<ge> 1\<close> it is a number within \<open>2\<^sup>-\<^sup>4\<^sup>5\<close> of \<open>100 \<cdot> S / (100\<cdot>N)\<close>, for \<open>N = 0\<close> it is \<open>NaN\<close>.  The
  grade is taken from this percentage by the bands 90, 80, 70, 60, and is F for \<open>NaN\<close>.  The
  \<open>passed\<close> flag of each test result says that the score of the image is at least 60.
\<close>

theorem batch_percentage_grade:
  "batch_percentage (foldl test_image init_run images)
     = js_mul (js_div (Num (real (score_sum images))) (Num (real (length images * 100))))
         (Num 100)
   \<and> (images \<noteq> [] \<longrightarrow>
        batch_percentage (foldl test_image init_run images)
          = Num (fl (fl (spec_percentage (score_sum images) (length images)) * 100))
        \<and> \<bar>fl (fl (spec_percentage (score_sum images) (length images)) * 100)
             - 100 * spec_percentage (score_sum images) (length images)\<bar> \<le> 1 / 2 ^ 45)
   \<and> (images = [] \<longrightarrow> batch_percentage (foldl test_image init_run images) = NaN)
   \<and> or_grade (runSelectedEvaluation images)
       = calculateGrade (batch_percentage (foldl test_image init_run images))
   \<and> (\<forall>p. (calculateGrade (Num p) = ''A'' \<longleftrightarrow> 90 \<le> p)
         \<and> (calculateGrade (Num p) = ''B'' \<longleftrightarrow> 80 \<le> p \<and> p < 90)
         \<and> (calculateGrade (Num p) = ''C'' \<longleftrightarrow> 70 \<le> p \<and> p < 80)
         \<and> (calculateGrade (Num p) = ''D'' \<longleftrightarrow> 60 \<le> p \<and> p < 70)
         \<and> (calculateGrade (Num p) = ''F'' \<longleftrightarrow> p < 60))
   \<and> calculateGrade NaN = ''F''
   \<and> map tr_passed (or_testResults (runSelectedEvaluation images))
       = map (\<lambda>img. 60 \<le> image_score img) images"
proof -
  let ?st = "foldl test_image init_run images"
  let ?S = "score_sum images" and ?N = "length images"
  have ne: "images \<noteq> [] \<longrightarrow>
        batch_percentage ?st = Num (fl (fl (spec_percentage ?S ?N) * 100))
        \<and> \<bar>fl (fl (spec_percentage ?S ?N) * 100) - 100 * spec_percentage ?S ?N\<bar> \<le> 1 / 2 ^ 45"
  proof
    assume "images \<noteq> []"
    then have N: "0 < ?N" by simp
    from percentage_value(1,4)[OF N score_sum_le[of images]]
    show "batch_percentage ?st = Num (fl (fl (spec_percentage ?S ?N) * 100))
        \<and> \<bar>fl (fl (spec_percentage ?S ?N) * 100) - 100 * spec_percentage ?S ?N\<bar> \<le> 1 / 2 ^ 45"
      unfolding batch_percentage_run by simp
  qed
  have em: "images = [] \<longrightarrow> batch_percentage ?st = NaN"
  proof
    assume e: "images = []"
    show "batch_percentage ?st = NaN"
      unfolding batch_percentage_run unfolding e by (simp add: score_sum_def)
  qed
  from batch_percentage_run[of images] ne em run_results(1,3)[of images] calculateGrade_bands
  show ?thesis by blast
qed

text \<open>
  A batch of three images: a perfect one (100 points), a blank one without ground truth
  (25 points) and one that fails to load.  The percentage is the rounding of
  \<open>(125 / 300) * 100\<close>, within \<open>2\<^sup>-\<^sup>4\<^sup>5\<close> of 41.67, and the grade is F.  And the batch of no
  image.
\<close>

theorem batch_percentage_grade_witness:
  "batch_percentage (foldl test_image init_run [perfect_image, blank_image, broken_image])
     = Num (fl (fl (5 / 12) * 100))
   \<and> \<bar>fl (fl (5 / 12) * 100) - 125 / 3\<bar> \<le> 1 / 2 ^ 45
   \<and> or_grade (runSelectedEvaluation [perfect_image, blank_image, broken_image]) = ''F''
   \<and> map tr_passed (or_testResults (runSelectedEvaluation [perfect_image, blank_image, broken_image]))
     = [True, False, False]
   \<and> batch_percentage (foldl test_image init_run []) = NaN
   \<and> or_grade (runSelectedEvaluation []) = ''F''"
proof -
  let ?imgs = "[perfect_image, blank_image, broken_image]"
  let ?st = "foldl test_image init_run ?imgs"
  have S: "score_sum ?imgs = 125" by (simp add: score_sum_def example_scores)
  have q: "spec_percentage 125 (length ?imgs) = 5 / 12" by (simp add: spec_percentage_def)
  have ps: "map (\<lambda>img. 60 \<le> image_score img) ?imgs = [True, False, False]"
    by (simp add: example_scores)
  have ne: "?imgs \<noteq> []" by simp
  note t = batch_percentage_grade[of ?imgs]
  from t ne have "batch_percentage ?st
      = Num (fl (fl (spec_percentage (score_sum ?imgs) (length ?imgs)) * 100))"
    by blast
  then have b: "batch_percentage ?st = Num (fl (fl (5 / 12) * 100))"
    unfolding S q .
  from t ne have "\<bar>fl (fl (spec_percentage (score_sum ?imgs) (length ?imgs)) * 100)
      - 100 * spec_percentage (score_sum ?imgs) (length ?imgs)\<bar> \<le> 1 / 2 ^ 45"
    by blast
  then have "\<bar>fl (fl (5 / 12) * 100) - 100 * (5 / 12)\<bar> \<le> 1 / 2 ^ 45"
    unfolding S q .
  then have e: "\<bar>fl (fl (5 / 12) * 100) - 125 / 3\<bar> \<le> 1 / 2 ^ 45" by simp
  have "(1::real) / 2 ^ 45 \<le> 1" by simp
  with e have "\<bar>fl (fl (5 / 12) * 100) - 125 / 3\<bar> \<le> 1" by (rule order_trans)
  then have lt: "fl (fl (5 / 12) * 100) < 60" by linarith
  from t have "or_grade (runSelectedEvaluation ?imgs) = calculateGrade (batch_percentage ?st)"
    by blast
  then have g: "or_grade (runSelectedEvaluation ?imgs) = ''F''"
    unfolding b using lt by (simp add: calculateGrade_def)
  from t have "map tr_passed (or_testResults (runSelectedEvaluation ?imgs))
      = map (\<lambda>img. 60 \<le> image_score img) ?imgs"
    by blast
  then have p: "map tr_passed (or_testResults (runSelectedEvaluation ?imgs))
      = [True, False, False]"
    unfolding ps .
  note t0 = batch_percentage_grade[of "[]"]
  from t0 have n: "batch_percentage (foldl test_image init_run []) = NaN" by blast
  from t0 have "or_grade (runSelectedEvaluation [])
      = calculateGrade (batch_percentage (foldl test_image init_run []))"
    by blast
  moreover from t0 have "calculateGrade NaN = ''F''" by blast
  ultimately have g0: "or_grade (runSelectedEvaluation []) = ''F''" unfolding n by simp
  from b e g p n g0 show ?thesis by blast
qed
section \<open>Pixel indices\<close>

lemma index_less:
  assumes "\<not> out_of_bounds width height x y"
  shows "index width x y < width * height"
proof -
  from assms have b: "0 \<le> x" "x < int width" "0 \<le> y" "y < int height"
    by (auto simp: out_of_bounds_def)
  then have "y + 1 \<le> int height" by simp
  then have "(y + 1) * int width \<le> int height * int width"
    by (intro mult_right_mono) simp_all
  then have "y * int width + x < int height * int width"
    using b by (simp add: algebra_simps)
  moreover have "0 \<le> y * int width + x" using b by simp
  ultimately show ?thesis
    unfolding index_def by (simp add: nat_less_iff mult.commute)
qed

lemma index_div_mod:
  assumes "\<not> out_of_bounds width height x y"
  shows "int (index width x y) mod int width = x" "int (index width x y) div int width = y"
proof -
  from assms have b: "0 \<le> x" "x < int width" "0 \<le> y" "y < int height"
    by (auto simp: out_of_bounds_def)
  then have nn: "0 \<le> y * int width + x" by simp
  have i: "int (index width x y) = y * int width + x"
    unfolding index_def using nn by simp
  show "int (index width x y) mod int width = x"
    unfolding i using b by simp
  show "int (index width x y) div int width = y"
    unfolding i using b by simp
qed

lemma index_inj:
  assumes "\<not> out_of_bounds width height x y" "\<not> out_of_bounds width height x' y'"
    and "index width x y = index width x' y'"
  shows "x = x' \<and> y = y'"
  using index_div_mod[OF assms(1)] index_div_mod[OF assms(2)] assms(3) by simp

section \<open>The edge test and the perimeter\<close>

lemma edge_scan_iff:
  "edge_scan width height binary p ds \<longleftrightarrow>
     (\<exists>d\<in>set ds. \<not> out_of_bounds width height (fst p + fst d) (snd p + snd d)
        \<and> binary ! index width (fst p + fst d) (snd p + snd d) = 0)"
  by (induction ds) auto

lemma foldl_count:
  "foldl (\<lambda>n p. if P p then n + 1 else n) k ps = k + length (filter P ps)"
  by (induction ps arbitrary: k) auto

lemma region_perimeter_filter:
  "region_perimeter width height binary pixels =
     length (filter (\<lambda>p. edge_scan width height binary p dirs) pixels)"
  unfolding region_perimeter_def by (simp add: foldl_count)

section \<open>The flood fill visits every pixel once\<close>

lemma push_neighbour_distinct:
  assumes "distinct (snd vq @ ps)" "\<forall>p\<in>set (snd vq) \<union> set ps. index width (fst p) (snd p) \<in> fst vq"
  shows "distinct (snd (push_neighbour width height binary c vq d) @ ps)
       \<and> (\<forall>p\<in>set (snd (push_neighbour width height binary c vq d)) \<union> set ps.
             index width (fst p) (snd p) \<in> fst (push_neighbour width height binary c vq d))"
proof (cases "\<not> out_of_bounds width height (fst c + fst d) (snd c + snd d)
              \<and> binary ! index width (fst c + fst d) (snd c + snd d) = 1
              \<and> index width (fst c + fst d) (snd c + snd d) \<notin> fst vq")
  case True
  let ?n = "(fst c + fst d, snd c + snd d)"
  have r: "push_neighbour width height binary c vq d
             = (insert (index width (fst ?n) (snd ?n)) (fst vq), ?n # snd vq)"
    using True by (simp add: push_neighbour_def Let_def)
  have "?n \<notin> set (snd vq) \<union> set ps"
  proof
    assume "?n \<in> set (snd vq) \<union> set ps"
    with assms(2) have "index width (fst ?n) (snd ?n) \<in> fst vq" by blast
    with True show False by simp
  qed
  then show ?thesis unfolding r using assms by auto
next
  case False
  then have "push_neighbour width height binary c vq d = vq"
    by (auto simp: push_neighbour_def Let_def)
  then show ?thesis using assms by simp
qed

lemma expand_distinct:
  assumes "distinct (snd vq @ ps)" "\<forall>p\<in>set (snd vq) \<union> set ps. index width (fst p) (snd p) \<in> fst vq"
  shows "distinct (snd (expand width height binary c vq) @ ps)
       \<and> (\<forall>p\<in>set (snd (expand width height binary c vq)) \<union> set ps.
             index width (fst p) (snd p) \<in> fst (expand width height binary c vq))"
proof -
  have "distinct (snd (foldl (push_neighbour width height binary c) vq ds) @ ps)
       \<and> (\<forall>p\<in>set (snd (foldl (push_neighbour width height binary c) vq ds)) \<union> set ps.
             index width (fst p) (snd p) \<in> fst (foldl (push_neighbour width height binary c) vq ds))"
    if "distinct (snd vq @ ps)" "\<forall>p\<in>set (snd vq) \<union> set ps. index width (fst p) (snd p) \<in> fst vq"
    for ds vq
    using that
  proof (induction ds arbitrary: vq)
    case Nil
    then show ?case by simp
  next
    case (Cons d ds)
    from push_neighbour_distinct[OF Cons.prems, of height binary c d]
    have "distinct (snd (push_neighbour width height binary c vq d) @ ps)"
      "\<forall>p\<in>set (snd (push_neighbour width height binary c vq d)) \<union> set ps.
             index width (fst p) (snd p) \<in> fst (push_neighbour width height binary c vq d)"
      by blast+
    from Cons.IH[OF this] show ?case by simp
  qed
  from this[OF assms] show ?thesis by (simp add: expand_def)
qed

lemma flood_distinct:
  "distinct (q @ ps) \<Longrightarrow> \<forall>p\<in>set q \<union> set ps. index width (fst p) (snd p) \<in> visited \<Longrightarrow>
     distinct (snd (flood width height binary visited q ps))"
proof (induction width height binary visited q ps rule: flood.induct)
  case (1 width height binary visited pixels)
  then show ?case by simp
next
  case (2 width height binary visited c q pixels)
  let ?e = "expand width height binary c (visited, q)"
  have d: "distinct (snd (visited, q) @ (pixels @ [c]))" using "2.prems"(1) by auto
  have v: "\<forall>p\<in>set (snd (visited, q)) \<union> set (pixels @ [c]).
             index width (fst p) (snd p) \<in> fst (visited, q)"
    using "2.prems"(2) by auto
  from expand_distinct[OF d v, of height binary c]
  have "distinct (snd ?e @ (pixels @ [c]))"
    "\<forall>p\<in>set (snd ?e) \<union> set (pixels @ [c]). index width (fst p) (snd p) \<in> fst ?e"
    by blast+
  from "2.IH"[OF this] show ?case by simp
qed

lemma scan_pixel_shapes:
  assumes "scan_pixel maxArguments width height binary vs p = Inr vs'" "s \<in> set (snd vs')"
  shows "s \<in> set (snd vs)
       \<or> (\<exists>pixels. distinct pixels
             \<and> analyse_region maxArguments width height binary pixels = Inr (Some s))"
proof (cases "binary ! index width (fst p) (snd p) = 0 \<or> index width (fst p) (snd p) \<in> fst vs")
  case True
  then show ?thesis using assms by (auto simp: scan_pixel_def Let_def)
next
  case False
  let ?r = "flood width height binary (insert (index width (fst p) (snd p)) (fst vs)) [p] []"
  have d: "distinct (snd ?r)"
    by (rule flood_distinct) simp_all
  from assms False
  have "s \<in> set (snd vs)
      \<or> analyse_region maxArguments width height binary (snd ?r) = Inr (Some s)"
    by (auto simp: scan_pixel_def Let_def split: sum.splits option.splits)
  with d show ?thesis by blast
qed

lemma scan_loop_shapes:
  "scan_loop maxArguments width height binary vs ps = Inr vs' \<Longrightarrow> s \<in> set (snd vs') \<Longrightarrow>
     s \<in> set (snd vs)
     \<or> (\<exists>pixels. distinct pixels
           \<and> analyse_region maxArguments width height binary pixels = Inr (Some s))"
proof (induction ps arbitrary: vs)
  case Nil
  then show ?case by simp
next
  case (Cons p ps)
  from Cons.prems(1) obtain vs1 where
    v: "scan_pixel maxArguments width height binary vs p = Inr vs1"
       "scan_loop maxArguments width height binary vs1 ps = Inr vs'"
    by (auto split: sum.splits)
  from Cons.IH[OF v(2) Cons.prems(2)]
  have "s \<in> set (snd vs1)
     \<or> (\<exists>pixels. distinct pixels
           \<and> analyse_region maxArguments width height binary pixels = Inr (Some s))" .
  then show ?case using scan_pixel_shapes[OF v(1)] by blast
qed

lemma detect_regions_shapes:
  "detect_regions maxArguments width height binary = Inr vs \<Longrightarrow> s \<in> set (snd vs) \<Longrightarrow>
     \<exists>pixels. distinct pixels
       \<and> analyse_region maxArguments width height binary pixels = Inr (Some s)"
  unfolding detect_regions_def using scan_loop_shapes by fastforce

section \<open>The regions lie inside the image\<close>





lemma scan_order_in_bounds:
  "p \<in> set (scan_order W H) \<Longrightarrow> \<not> out_of_bounds W H (fst p) (snd p)"
  by (auto simp: scan_order_def out_of_bounds_def)




section \<open>Regions that pass the filter\<close>

lemma region_features_fields:
  "f_area (region_features width height binary pixels) = length pixels"
  "f_minX (region_features width height binary pixels) = Min (set (map fst pixels))"
  "f_maxX (region_features width height binary pixels) = Max (set (map fst pixels))"
  "f_minY (region_features width height binary pixels) = Min (set (map snd pixels))"
  "f_maxY (region_features width height binary pixels) = Max (set (map snd pixels))"
  "f_perimeter (region_features width height binary pixels) =
     region_perimeter width height binary pixels"
  by (simp_all add: region_features_def Let_def)

lemma region_features_derived:
  fixes width height binary pixels
  defines "f \<equiv> region_features width height binary pixels"
  shows "f_circularity f =
           (4 * pi * real (f_area f)) / (real (f_perimeter f * f_perimeter f) + 1/1000000)"
    and "f_fillRatio f =
           real (f_area f) / (real_of_int (bbox_width f * bbox_height f) + 1/1000000)"
    and "f_aspectRatio f =
           real_of_int (max (bbox_width f) (bbox_height f))
             / real_of_int (max 1 (min (bbox_width f) (bbox_height f)))"
    and "f_thinness f = real (f_perimeter f) / real (f_area f + 1)"
  unfolding f_def by (simp_all add: region_features_def Let_def bbox_width_def bbox_height_def)

lemma row_of_pixels_card:
  assumes "distinct pixels" "\<forall>p\<in>set pixels. lo \<le> fst p \<and> fst p \<le> hi \<and> snd p = y"
  shows "int (length pixels) \<le> hi - lo + 1 \<or> pixels = []"
proof (cases "pixels = []")
  case True
  then show ?thesis by simp
next
  case False
  then obtain p where "p \<in> set pixels" by (cases pixels) auto
  with assms(2) have le: "lo \<le> hi" by force
  have "set pixels \<subseteq> {lo..hi} \<times> {y}" using assms(2) by auto
  then have "card (set pixels) \<le> card ({lo..hi} \<times> {y})"
    by (intro card_mono) simp_all
  also have "\<dots> = nat (hi - lo + 1)" by (simp add: card_cartesian_product)
  finally have "length pixels \<le> nat (hi - lo + 1)"
    using assms(1) by (simp add: distinct_card)
  then show ?thesis using le by linarith
qed

lemma column_of_pixels_card:
  assumes "distinct pixels" "\<forall>p\<in>set pixels. lo \<le> snd p \<and> snd p \<le> hi \<and> fst p = x"
  shows "int (length pixels) \<le> hi - lo + 1 \<or> pixels = []"
proof (cases "pixels = []")
  case True
  then show ?thesis by simp
next
  case False
  then obtain p where "p \<in> set pixels" by (cases pixels) auto
  with assms(2) have le: "lo \<le> hi" by force
  have "set pixels \<subseteq> {x} \<times> {lo..hi}" using assms(2) by auto
  then have "card (set pixels) \<le> card ({x} \<times> {lo..hi})"
    by (intro card_mono) simp_all
  also have "\<dots> = nat (hi - lo + 1)" by (simp add: card_cartesian_product)
  finally have "length pixels \<le> nat (hi - lo + 1)"
    using assms(1) by (simp add: distinct_card)
  then show ?thesis using le by linarith
qed

lemma accepted_region_extent:
  fixes width height binary pixels
  defines "f \<equiv> region_features width height binary pixels"
  assumes d: "distinct pixels" and acc: "\<not> rejected f"
  shows "1 \<le> bbox_width f \<and> 1 \<le> bbox_height f"
proof -
  from acc have big: "300 \<le> length pixels" and asp: "f_aspectRatio f \<le> 4"
    unfolding f_def by (simp_all add: rejected_def region_features_fields)
  then have ne: "pixels \<noteq> []" by auto
  let ?xs = "set (map fst pixels)" and ?ys = "set (map snd pixels)"
  have fin: "finite ?xs" "finite ?ys" and nemp: "?xs \<noteq> {}" "?ys \<noteq> {}"
    using ne by simp_all
  have bx: "\<forall>p\<in>set pixels. Min ?xs \<le> fst p \<and> fst p \<le> Max ?xs"
    using fin by (auto intro: Min_le Max_ge)
  have by': "\<forall>p\<in>set pixels. Min ?ys \<le> snd p \<and> snd p \<le> Max ?ys"
    using fin by (auto intro: Min_le Max_ge)
  have w: "bbox_width f = Max ?xs - Min ?xs" and h: "bbox_height f = Max ?ys - Min ?ys"
    unfolding f_def by (simp_all add: bbox_width_def bbox_height_def region_features_fields)
  have w0: "0 \<le> bbox_width f" unfolding w using fin nemp by (simp add: Min_le_iff)
  have h0: "0 \<le> bbox_height f" unfolding h using fin nemp by (simp add: Min_le_iff)
  have a: "f_aspectRatio f =
           real_of_int (max (bbox_width f) (bbox_height f))
             / real_of_int (max 1 (min (bbox_width f) (bbox_height f)))"
    unfolding f_def by (rule region_features_derived)
  have hpos: "bbox_height f \<noteq> 0"
  proof
    assume z: "bbox_height f = 0"
    have "\<forall>p\<in>set pixels. Min ?xs \<le> fst p \<and> fst p \<le> Max ?xs \<and> snd p = Min ?ys"
    proof
      fix p assume p: "p \<in> set pixels"
      from z h have "Max ?ys = Min ?ys" by simp
      with by'[rule_format, OF p] have "snd p = Min ?ys" by linarith
      with bx[rule_format, OF p] show "Min ?xs \<le> fst p \<and> fst p \<le> Max ?xs \<and> snd p = Min ?ys"
        by simp
    qed
    from row_of_pixels_card[OF d this] ne have "int (length pixels) \<le> bbox_width f + 1"
      unfolding w by simp
    with big have "299 \<le> bbox_width f" by linarith
    moreover have "f_aspectRatio f = real_of_int (bbox_width f)"
      unfolding a using z w0 by simp
    ultimately show False using asp by linarith
  qed
  have wpos: "bbox_width f \<noteq> 0"
  proof
    assume z: "bbox_width f = 0"
    have "\<forall>p\<in>set pixels. Min ?ys \<le> snd p \<and> snd p \<le> Max ?ys \<and> fst p = Min ?xs"
    proof
      fix p assume p: "p \<in> set pixels"
      from z w have "Max ?xs = Min ?xs" by simp
      with bx[rule_format, OF p] have "fst p = Min ?xs" by linarith
      with by'[rule_format, OF p] show "Min ?ys \<le> snd p \<and> snd p \<le> Max ?ys \<and> fst p = Min ?xs"
        by simp
    qed
    from column_of_pixels_card[OF d this] ne have "int (length pixels) \<le> bbox_height f + 1"
      unfolding h by simp
    with big have "299 \<le> bbox_height f" by linarith
    moreover have "f_aspectRatio f = real_of_int (bbox_height f)"
      unfolding a using z h0 by simp
    ultimately show False using asp by linarith
  qed
  from w0 h0 hpos wpos show ?thesis by linarith
qed

lemma analyse_region_Some:
  assumes "analyse_region maxArguments width height binary pixels = Inr (Some s)"
  defines "f \<equiv> region_features width height binary pixels"
  shows "40 \<le> length pixels" "\<not> rejected f"
    "shape_type s = fst (classify f)" "confidence s = snd (classify f)"
    "area s = real (f_area f)"
    "box_width (boundingBox s) = real_of_int (bbox_width f)"
    "box_height (boundingBox s) = real_of_int (bbox_height f)"
    "length pixels \<le> maxArguments"
  using assms(1) unfolding f_def
  by (auto simp: analyse_region_def Let_def split: if_splits)

lemma detectShapes_shapes:
  assumes "detectShapes maxArguments startTime endTime imageData = Inr r"
  shows "\<exists>vs. detect_regions maxArguments (img_width imageData) (img_height imageData)
                (binarize (grayscale imageData)) = Inr vs
            \<and> shapes r = snd vs"
  using assms by (auto simp: detectShapes_def Let_def split: sum.splits)

text \<open>
  C8: every region that passes the filter of step 6 has a bounding box of width and height
  at least 1, so the quotient \<open>bbox.width / bbox.height\<close> of the classification has a
  divisor other than 0.  The shapes returned by \<open>detectShapes\<close> are exactly the regions that
  pass the filter.
\<close>

theorem accepted_shapes_have_extent:
  assumes "detectShapes maxArguments startTime endTime imageData = Inr r"
    and "s \<in> set (shapes r)"
  shows "\<exists>pixels. analyse_region maxArguments (img_width imageData) (img_height imageData)
                     (binarize (grayscale imageData)) pixels = Inr (Some s)
           \<and> \<not> rejected (region_features (img_width imageData) (img_height imageData)
                           (binarize (grayscale imageData)) pixels)
           \<and> 1 \<le> bbox_width (region_features (img_width imageData) (img_height imageData)
                                (binarize (grayscale imageData)) pixels)
           \<and> 1 \<le> bbox_height (region_features (img_width imageData) (img_height imageData)
                                (binarize (grayscale imageData)) pixels)
           \<and> bbox_ratio (region_features (img_width imageData) (img_height imageData)
                                (binarize (grayscale imageData)) pixels) \<noteq> None
           \<and> 1 \<le> box_width (boundingBox s) \<and> 1 \<le> box_height (boundingBox s)"
proof -
  let ?w = "img_width imageData" and ?h = "img_height imageData"
  let ?b = "binarize (grayscale imageData)"
  from detectShapes_shapes[OF assms(1)] assms(2) obtain vs where
    "detect_regions maxArguments ?w ?h ?b = Inr vs" "s \<in> set (snd vs)"
    by auto
  from detect_regions_shapes[OF this] obtain pixels where
    p: "distinct pixels" "analyse_region maxArguments ?w ?h ?b pixels = Inr (Some s)" by blast
  let ?f = "region_features ?w ?h ?b pixels"
  note a = analyse_region_Some[OF p(2)]
  from accepted_region_extent[OF p(1) a(2)]
  have e: "1 \<le> bbox_width ?f" "1 \<le> bbox_height ?f" by simp_all
  then have r: "bbox_ratio ?f \<noteq> None" by (simp add: bbox_ratio_def)
  have "1 \<le> box_width (boundingBox s)" "1 \<le> box_height (boundingBox s)"
    unfolding a(6) a(7) using e by simp_all
  with p(2) a(2) e r show ?thesis by blast
qed

lemma classify_confidence:
  "(fst (classify f) = Circle \<longrightarrow> snd (classify f) = f_circularity f \<and> 3/4 < f_circularity f)
   \<and> (fst (classify f) \<noteq> Circle \<longrightarrow> snd (classify f) \<in> {9/10, 85/100, 8/10})"
  by (auto simp: classify_def split: option.splits)

text \<open>
  C1, amended: every shape returned by \<open>detectShapes\<close> has area at least 300 and a
  confidence above 0; a shape that is not a circle has confidence 0.9, 0.85 or 0.8, within
  \<open>[0,1]\<close>; a circle has the circularity \<open>4\<pi>\<cdot>area / (perimeter\<^sup>2 + 10\<^sup>-\<^sup>6)\<close> of its region as
  confidence, which is above 0.75 (and, as the counterexample shows, not bounded by 1).
\<close>

theorem detected_shapes_area_confidence:
  assumes "detectShapes maxArguments startTime endTime imageData = Inr r"
    and "s \<in> set (shapes r)"
  shows "300 \<le> area s \<and> 0 < confidence s
       \<and> (shape_type s \<noteq> Circle \<longrightarrow>
            confidence s \<in> {9/10, 85/100, 8/10} \<and> confidence s \<le> 1)
       \<and> (shape_type s = Circle \<longrightarrow>
            3/4 < confidence s
            \<and> (\<exists>pixels. analyse_region maxArguments (img_width imageData) (img_height imageData)
                           (binarize (grayscale imageData)) pixels = Inr (Some s)
                 \<and> confidence s =
                     (4 * pi * real (length pixels))
                     / (real (region_perimeter (img_width imageData) (img_height imageData)
                               (binarize (grayscale imageData)) pixels
                             * region_perimeter (img_width imageData) (img_height imageData)
                               (binarize (grayscale imageData)) pixels) + 1/1000000)))"
proof -
  let ?w = "img_width imageData" and ?h = "img_height imageData"
  let ?b = "binarize (grayscale imageData)"
  from detectShapes_shapes[OF assms(1)] assms(2) obtain vs where
    "detect_regions maxArguments ?w ?h ?b = Inr vs" "s \<in> set (snd vs)"
    by auto
  from detect_regions_shapes[OF this] obtain pixels where
    p: "distinct pixels" "analyse_region maxArguments ?w ?h ?b pixels = Inr (Some s)" by blast
  let ?f = "region_features ?w ?h ?b pixels"
  note a = analyse_region_Some[OF p(2)]
  from a(2) have "300 \<le> f_area ?f" by (simp add: rejected_def)
  then have ar: "300 \<le> area s" unfolding a(5) by simp
  note c = classify_confidence[of ?f]
  have circ: "f_circularity ?f = (4 * pi * real (length pixels))
                 / (real (region_perimeter ?w ?h ?b pixels * region_perimeter ?w ?h ?b pixels)
                      + 1/1000000)"
    using region_features_derived(1)[of ?w ?h ?b pixels] by (simp add: region_features_fields)
  have nc: "shape_type s \<noteq> Circle \<longrightarrow> confidence s \<in> {9/10, 85/100, 8/10} \<and> confidence s \<le> 1"
    using c unfolding a(3) a(4) by auto
  have ci: "shape_type s = Circle \<longrightarrow> 3/4 < confidence s
            \<and> (\<exists>pixels. analyse_region maxArguments ?w ?h ?b pixels = Inr (Some s)
                 \<and> confidence s = (4 * pi * real (length pixels))
                     / (real (region_perimeter ?w ?h ?b pixels * region_perimeter ?w ?h ?b pixels)
                          + 1/1000000))"
    using c p(2) circ unfolding a(3) a(4) by auto
  have pos: "0 < confidence s"
  proof (cases "shape_type s = Circle")
    case True
    with ci show ?thesis by auto
  next
    case False
    with nc show ?thesis by auto
  qed
  from ar pos nc ci show ?thesis by blast
qed

section \<open>The errors of detectShapes\<close>




section \<open>The flood fill collects a closed set of foreground pixels\<close>

lemma push_neighbour_closed:
  fixes c :: pixel and d :: "int \<times> int"
  assumes "\<forall>p\<in>set (snd vq) \<union> P. fg_pixel width height binary p"
    and "fst vq = V0 \<union> pixel_index width ` (set (snd vq) \<union> P)"
  defines "r \<equiv> push_neighbour width height binary c vq d"
  shows "\<forall>p\<in>set (snd r) \<union> P. fg_pixel width height binary p"
    and "fst r = V0 \<union> pixel_index width ` (set (snd r) \<union> P)"
    and "fst vq \<subseteq> fst r" and "set (snd vq) \<subseteq> set (snd r)"
    and "fg_pixel width height binary (shift c d) \<longrightarrow> pixel_index width (shift c d) \<in> fst r"
proof -
  let ?n = "shift c d"
  have idx: "index width (fst c + fst d) (snd c + snd d) = pixel_index width ?n"
    by (simp add: pixel_index_def shift_def)
  show "\<forall>p\<in>set (snd r) \<union> P. fg_pixel width height binary p"
    using assms(1) unfolding r_def push_neighbour_def Let_def
    by (auto simp: fg_pixel_def pixel_index_def)
  show "fst r = V0 \<union> pixel_index width ` (set (snd r) \<union> P)"
    using assms(2) unfolding r_def push_neighbour_def Let_def
    by (auto simp: pixel_index_def)
  show "fst vq \<subseteq> fst r" "set (snd vq) \<subseteq> set (snd r)"
    unfolding r_def push_neighbour_def Let_def by auto
  show "fg_pixel width height binary (shift c d) \<longrightarrow> pixel_index width (shift c d) \<in> fst r"
    unfolding r_def push_neighbour_def Let_def
    by (auto simp: fg_pixel_def pixel_index_def shift_def)
qed

lemma foldl_push_closed:
  fixes c :: pixel and ds :: "(int \<times> int) list"
  assumes "\<forall>p\<in>set (snd vq) \<union> P. fg_pixel width height binary p"
    and "fst vq = V0 \<union> pixel_index width ` (set (snd vq) \<union> P)"
  defines "r \<equiv> foldl (push_neighbour width height binary c) vq ds"
  shows "(\<forall>p\<in>set (snd r) \<union> P. fg_pixel width height binary p)
       \<and> fst r = V0 \<union> pixel_index width ` (set (snd r) \<union> P)
       \<and> fst vq \<subseteq> fst r \<and> set (snd vq) \<subseteq> set (snd r)
       \<and> (\<forall>d\<in>set ds. fg_pixel width height binary (shift c d)
              \<longrightarrow> pixel_index width (shift c d) \<in> fst r)"
  using assms(1,2) unfolding r_def
proof (induction ds arbitrary: vq)
  case Nil
  then show ?case by simp
next
  case (Cons d ds)
  let ?r1 = "push_neighbour width height binary c vq d"
  let ?r = "foldl (push_neighbour width height binary c) ?r1 ds"
  note p = push_neighbour_closed[OF Cons.prems, of c d]
  from Cons.IH[OF p(1) p(2)]
  have i1: "\<forall>p\<in>set (snd ?r) \<union> P. fg_pixel width height binary p"
    and i2: "fst ?r = V0 \<union> pixel_index width ` (set (snd ?r) \<union> P)"
    and i3: "fst ?r1 \<subseteq> fst ?r" and i4: "set (snd ?r1) \<subseteq> set (snd ?r)"
    and i5: "\<forall>d\<in>set ds. fg_pixel width height binary (shift c d)
              \<longrightarrow> pixel_index width (shift c d) \<in> fst ?r"
    by blast+
  have j3: "fst vq \<subseteq> fst ?r" using p(3) i3 by blast
  have j4: "set (snd vq) \<subseteq> set (snd ?r)" using p(4) i4 by blast
  have j5: "\<forall>d'\<in>set (d # ds). fg_pixel width height binary (shift c d')
              \<longrightarrow> pixel_index width (shift c d') \<in> fst ?r"
    using p(5) i3 i5 by auto
  have eq: "foldl (push_neighbour width height binary c) vq (d # ds) = ?r" by simp
  show ?case unfolding eq using i1 i2 j3 j4 j5 by blast
qed

lemma flood_closed:
  assumes "\<forall>p\<in>set q \<union> set ps. fg_pixel width height binary p"
    and "visited = V0 \<union> pixel_index width ` (set q \<union> set ps)"
    and "\<forall>p\<in>set ps. \<forall>d\<in>set dirs. fg_pixel width height binary (shift p d)
            \<longrightarrow> pixel_index width (shift p d) \<in> visited"
  defines "r \<equiv> flood width height binary visited q ps"
  shows "(\<forall>p\<in>set (snd r). fg_pixel width height binary p)
       \<and> fst r = V0 \<union> pixel_index width ` set (snd r)
       \<and> (\<forall>p\<in>set (snd r). \<forall>d\<in>set dirs. fg_pixel width height binary (shift p d)
              \<longrightarrow> pixel_index width (shift p d) \<in> fst r)
       \<and> set q \<union> set ps \<subseteq> set (snd r)"
  using assms(1-3) unfolding r_def
proof (induction width height binary visited q ps rule: flood.induct)
  case (1 width height binary visited pixels)
  then show ?case by simp
next
  case (2 width height binary visited c q pixels)
  let ?e = "expand width height binary c (visited, q)"
  have a1: "\<forall>p\<in>set (snd (visited, q)) \<union> (set pixels \<union> {c}). fg_pixel width height binary p"
    using "2.prems"(1) by auto
  have a2: "fst (visited, q) = V0 \<union> pixel_index width ` (set (snd (visited, q)) \<union> (set pixels \<union> {c}))"
    using "2.prems"(2) by auto
  have ee: "?e = foldl (push_neighbour width height binary c) (visited, q) dirs"
    by (simp add: expand_def)
  from foldl_push_closed[OF a1 a2, of c dirs, folded ee]
  have e: "\<forall>p\<in>set (snd ?e) \<union> (set pixels \<union> {c}). fg_pixel width height binary p"
    "fst ?e = V0 \<union> pixel_index width ` (set (snd ?e) \<union> (set pixels \<union> {c}))"
    "fst (visited, q) \<subseteq> fst ?e" "set (snd (visited, q)) \<subseteq> set (snd ?e)"
    "\<forall>d\<in>set dirs. fg_pixel width height binary (shift c d)
              \<longrightarrow> pixel_index width (shift c d) \<in> fst ?e"
    by blast+
  have b1: "\<forall>p\<in>set (snd ?e) \<union> set (pixels @ [c]). fg_pixel width height binary p"
    using e(1) by auto
  have b2: "fst ?e = V0 \<union> pixel_index width ` (set (snd ?e) \<union> set (pixels @ [c]))"
    using e(2) by simp
  have b3: "\<forall>p\<in>set (pixels @ [c]). \<forall>d\<in>set dirs. fg_pixel width height binary (shift p d)
            \<longrightarrow> pixel_index width (shift p d) \<in> fst ?e"
    using "2.prems"(3) e(3,5) by auto
  have q: "set q \<subseteq> set (snd ?e)" using e(4) by simp
  from "2.IH"[OF b1 b2 b3] q show ?case by auto
qed

section \<open>The example image: grayscale and mask\<close>

lemma concat_chunks:
  assumes "\<And>k. length (f k) = m"
  shows "length (concat (map f [0..<n])) = m * n"
    and "k < n \<Longrightarrow> c < m \<Longrightarrow> concat (map f [0..<n]) ! (m * k + c) = f k ! c"
proof -
  show len: "length (concat (map f [0..<n])) = m * n" for n
    by (induction n) (simp_all add: assms)
  show "k < n \<Longrightarrow> c < m \<Longrightarrow> concat (map f [0..<n]) ! (m * k + c) = f k ! c"
  proof (induction n)
    case 0
    then show ?case by simp
  next
    case (Suc n)
    show ?case
    proof (cases "k < n")
      case True
      then have "m * k + c < m * n"
      proof -
        from True have "Suc k \<le> n" by simp
        then have "m * Suc k \<le> m * n" by (rule mult_le_mono2)
        with Suc.prems(2) show ?thesis by simp
      qed
      then show ?thesis using Suc.IH[OF True Suc.prems(2)] by (simp add: nth_append len)
    next
      case False
      with Suc.prems have "k = n" by simp
      then show ?thesis by (simp add: nth_append len)
    qed
  qed
qed

lemma to_uint8_clamped_values:
  "to_uint8_clamped 0 = 0" "to_uint8_clamped 255 = 255"
  by (simp_all add: to_uint8_clamped_def Let_def)

text \<open>
  The gray value of a white pixel: the roundings of \<open>0.299 * 255 + 0.587 * 255 + 0.114 * 255\<close>
  end in 255.
\<close>

lemma white_steps:
  "fl (299 / 1000) = 5386305154335113 / 18014398509481984"
  "fl (587 / 1000) = 2643612981266481 / 4503599627370496"
  "fl (57 / 500) = 8214565720323785 / 72057594037927936"
  "fl (1373507814355453815 / 18014398509481984) = 5365264899825991 / 70368744177664"
  "fl (674121310222952655 / 4503599627370496) = 2633286368058409 / 17592186044416"
  "fl (2094714258682565175 / 72057594037927936) = 4091238786489385 / 140737488355328"
  "fl (15898410372059627 / 70368744177664) = 3974602593014907 / 17592186044416"
  "fl (35888059530608641 / 140737488355328) = 255"
proof -
  show "fl (299 / 1000) = 5386305154335113 / 18014398509481984"
    using fl_eval_frac[of "299 / 1000" 54 5386305154335113] by simp
  show "fl (587 / 1000) = 2643612981266481 / 4503599627370496"
    using fl_eval_frac[of "587 / 1000" 53 5287225962532962] by simp
  show "fl (57 / 500) = 8214565720323785 / 72057594037927936"
    using fl_eval_frac[of "57 / 500" 56 8214565720323785] by simp
  show "fl (1373507814355453815 / 18014398509481984) = 5365264899825991 / 70368744177664"
    using fl_eval_frac[of "1373507814355453815 / 18014398509481984" 46 5365264899825991] by simp
  show "fl (674121310222952655 / 4503599627370496) = 2633286368058409 / 17592186044416"
    using fl_eval_frac[of "674121310222952655 / 4503599627370496" 45 5266572736116818] by simp
  show "fl (2094714258682565175 / 72057594037927936) = 4091238786489385 / 140737488355328"
    using fl_eval_frac[of "2094714258682565175 / 72057594037927936" 48 8182477572978770] by simp
  show "fl (15898410372059627 / 70368744177664) = 3974602593014907 / 17592186044416"
    using fl_eval_frac_tie[of "15898410372059627 / 70368744177664" 45 7949205186029813] by simp
  show "fl (35888059530608641 / 140737488355328) = 255"
    using fl_eval_frac[of "35888059530608641 / 140737488355328" 45 8972014882652160] by simp
qed

lemma gray_value_two_level: "gray_value 0 0 0 = 0" "gray_value 255 255 255 = 255"
  by (simp_all add: gray_value_def white_steps)

lemma block_grayscale: "grayscale (block_image W H a) = block_gray W H a"
proof -
  let ?f = "\<lambda>k. if k mod W < a then [0, 0, 0, 255] else [255, 255, 255, 255::nat]"
  let ?data = "concat (map ?f [0 ..< W * H])"
  have l: "\<And>k. length (?f k) = 4" by simp
  have len: "length ?data = 4 * (W * H)" by (rule concat_chunks(1)[OF l])
  have at: "?data ! (4 * k + c) = ?f k ! c" if "k < W * H" "c < 4" for k c
    by (rule concat_chunks(2)[OF l that])
  have "gray_at ?data k = (if k mod W < a then 0 else 255)" if k: "k < W * H" for k
  proof -
    have b: "4 * k < length ?data" "4 * k + 2 < length ?data" using k len by simp_all
    have d0: "?data ! (4 * k) = ?f k ! 0" using at[OF k, of 0] by simp
    have d1: "?data ! (4 * k + 1) = ?f k ! 1" using at[OF k, of 1] by simp
    have d2: "?data ! (4 * k + 2) = ?f k ! 2" using at[OF k, of 2] by simp
    show ?thesis
      unfolding gray_at_def using b
      by (simp only: d0 d1 d2 if_True) (simp add: to_uint8_clamped_values gray_value_two_level)
  qed
  then show ?thesis
    by (simp add: grayscale_def block_image_def block_gray_def)
qed

lemma count_below_row: "a \<le> W \<Longrightarrow> length (filter (\<lambda>j. j < a) [0..<W]) = a"
proof -
  assume "a \<le> W"
  then obtain b where "W = a + b" using le_Suc_ex by blast
  then have "[0..<W] = [0..<a] @ [a..<W]" using upt_add_eq_append[of 0 a b] by simp
  then have "filter (\<lambda>j. j < a) [0..<W] = filter (\<lambda>j. j < a) [0..<a] @ filter (\<lambda>j. j < a) [a..<W]"
    by simp
  also have "filter (\<lambda>j. j < a) [0..<a] = [0..<a]" by (rule filter_True) simp
  also have "filter (\<lambda>j. j < a) [a..<W] = []" by (rule filter_False) simp
  finally show ?thesis by simp
qed

lemma count_mod_below:
  assumes "a \<le> W"
  shows "length (filter (\<lambda>k. k mod W < a) [0 ..< W * H]) = a * H"
proof (induction H)
  case 0
  then show ?case by simp
next
  case (Suc H)
  have "[0 ..< W * H + W] = [0 ..< W * H] @ [W * H ..< W * H + W]"
    using upt_add_eq_append[of 0 "W * H" W] by simp
  moreover have "map (\<lambda>j. j + W * H) [0 ..< W] = [W * H ..< W + W * H]"
    by (rule map_add_upt)
  moreover have "W * Suc H = W * H + W" "W + W * H = W * H + W" by simp_all
  ultimately have split: "[0 ..< W * Suc H] = [0 ..< W * H] @ map (\<lambda>j. j + W * H) [0 ..< W]"
    by (simp only:)
  have "filter (\<lambda>k. k mod W < a) (map (\<lambda>j. j + W * H) [0 ..< W])
          = map (\<lambda>j. j + W * H) (filter (\<lambda>j. (j + W * H) mod W < a) [0 ..< W])"
    by (simp add: filter_map comp_def)
  also have "filter (\<lambda>j. (j + W * H) mod W < a) [0 ..< W] = filter (\<lambda>j. j < a) [0 ..< W]"
    by (rule filter_cong) simp_all
  finally have "length (filter (\<lambda>k. k mod W < a) (map (\<lambda>j. j + W * H) [0 ..< W])) = a"
    using count_below_row[OF assms] by simp
  then show ?case unfolding split using Suc by simp
qed

lemma sum_list_two_level:
  "set gs \<subseteq> {0, 255::nat} \<Longrightarrow>
     sum_list gs = 255 * (length gs - length (filter (\<lambda>v. v = 0) gs))"
proof (induction gs)
  case Nil
  then show ?case by simp
next
  case (Cons v gs)
  have le: "length (filter (\<lambda>v. v = 0) gs) \<le> length gs" by simp
  from Cons show ?case using le by (auto simp: Suc_diff_le)
qed

lemma binarize_two_level:
  fixes gs :: "nat list"
  defines "D \<equiv> length (filter (\<lambda>v. v = 0) gs)"
  assumes two: "set gs \<subseteq> {0, 255}" and pos: "0 < D" and few: "D \<le> length gs - D"
  shows "binarize gs = map (\<lambda>v. if v = 0 then 1 else 0) gs"
proof -
  let ?n = "length gs" and ?q = "real (sum_list gs) / real (length gs)"
  let ?avg = "fl ?q"
  have Dn: "D \<le> ?n" unfolding D_def by simp
  have L: "0 < ?n - D" using pos few by simp
  then have n: "0 < ?n" by arith
  have s: "sum_list gs = 255 * (?n - D)" unfolding D_def by (rule sum_list_two_level[OF two])
  have q_ge: "1 \<le> ?q"
  proof -
    have "?n \<le> 255 * (?n - D)" using few Dn by arith
    then have "real ?n \<le> real (255 * (?n - D))" by (simp only: of_nat_le_iff)
    then show ?thesis unfolding s using n by (simp add: le_divide_eq)
  qed
  have q_le: "?q \<le> 255"
  proof -
    have "real (255 * (?n - D)) \<le> 255 * real ?n" by simp
    then show ?thesis unfolding s using n by (simp add: divide_le_eq)
  qed
  have one: "fl 1 = 1" using fl_int[of 1] by simp
  have top: "fl 255 = 255" using fl_int[of 255] by simp
  have avg_pos: "0 < ?avg" using fl_ge_double[OF one q_ge] by simp
  have avg_le: "?avg \<le> 255" by (rule fl_le_double[OF top q_le])
  have dark: "real v < ?avg \<longleftrightarrow> v = 0" if "v \<in> set gs" for v
    using that two avg_pos avg_le by auto
  have fd: "filter (\<lambda>g. real g < ?avg) gs = filter (\<lambda>v. v = 0) gs"
    by (rule filter_cong) (simp_all add: dark)
  have fn: "filter (\<lambda>g. \<not> real g < ?avg) gs = filter (\<lambda>v. v \<noteq> 0) gs"
    by (rule filter_cong) (simp_all add: dark)
  have cl: "length (filter (\<lambda>v. v \<noteq> 0) gs) = ?n - D"
    using sum_length_filter_compl[of "\<lambda>v. v = 0" gs] unfolding D_def by simp
  have nl: "\<not> (length (filter (\<lambda>g. \<not> real g < ?avg) gs) < length (filter (\<lambda>g. real g < ?avg) gs))"
    unfolding fd fn cl using few D_def by simp
  have "binarize gs = map (\<lambda>g. if real g < ?avg then 1 else 0) gs"
    unfolding binarize_def Let_def using nl by simp
  also have "\<dots> = map (\<lambda>v. if v = 0 then 1 else 0) gs"
    by (rule map_cong) (simp_all add: dark)
  finally show ?thesis .
qed

lemma block_binarize:
  assumes "0 < a" "2 * a \<le> W" "0 < H"
  shows "binarize (block_gray W H a) = block_mask W H a"
proof -
  have aW: "a \<le> W" using assms by simp
  have f: "filter (\<lambda>v. v = 0) (block_gray W H a)
             = map (\<lambda>k. if k mod W < a then 0 else 255) (filter (\<lambda>k. k mod W < a) [0 ..< W * H])"
    unfolding block_gray_def by (simp add: filter_map comp_def)
  have D: "length (filter (\<lambda>v. v = 0) (block_gray W H a)) = a * H"
    unfolding f by (simp add: count_mod_below[OF aW])
  have n: "length (block_gray W H a) = W * H" by (simp add: block_gray_def)
  have two: "set (block_gray W H a) \<subseteq> {0, 255}" by (auto simp: block_gray_def)
  have pos: "0 < length (filter (\<lambda>v. v = 0) (block_gray W H a))"
    unfolding D using assms by simp
  from assms(2) have "(2 * a) * H \<le> W * H" by (rule mult_le_mono1)
  then have "a * H + a * H \<le> W * H" by (simp only: mult_2 add_mult_distrib)
  then have few: "length (filter (\<lambda>v. v = 0) (block_gray W H a))
                   \<le> length (block_gray W H a) - length (filter (\<lambda>v. v = 0) (block_gray W H a))"
    unfolding D n by arith
  from binarize_two_level[OF two pos few]
  show ?thesis by (simp add: block_gray_def block_mask_def)
qed

lemma block_mask_at:
  assumes "\<not> out_of_bounds W H x y"
  shows "block_mask W H a ! index W x y = (if x < int a then 1 else 0)"
proof -
  have l: "index W x y < W * H" by (rule index_less[OF assms])
  have "int (index W x y mod W) = x"
    using index_div_mod(1)[OF assms] by (simp add: zmod_int)
  then have "index W x y mod W < a \<longleftrightarrow> x < int a" by linarith
  then show ?thesis using l by (simp add: block_mask_def)
qed

section \<open>The example image: the region found\<close>

lemma block_fg_pixel:
  assumes "a \<le> W"
  shows "fg_pixel W H (block_mask W H a) p \<longleftrightarrow> p \<in> block a H"
proof (cases "out_of_bounds W H (fst p) (snd p)")
  case True
  then have "p \<notin> block a H" using assms
    by (cases p) (auto simp: block_def out_of_bounds_def)
  with True show ?thesis by (simp add: fg_pixel_def)
next
  case False
  from block_mask_at[OF False, of a]
  have "block_mask W H a ! pixel_index W p = (if fst p < int a then 1 else 0)"
    by (simp add: pixel_index_def)
  moreover have "p \<in> block a H \<longleftrightarrow> fst p < int a"
    using False by (cases p) (auto simp: block_def out_of_bounds_def)
  ultimately show ?thesis using False by (simp add: fg_pixel_def)
qed

lemma block_in_bounds:
  assumes "a \<le> W" "p \<in> block a H"
  shows "\<not> out_of_bounds W H (fst p) (snd p)"
  using assms by (cases p) (auto simp: block_def out_of_bounds_def)

lemma pixel_index_inj:
  assumes "\<not> out_of_bounds W H (fst p) (snd p)" "\<not> out_of_bounds W H (fst p') (snd p')"
    and "pixel_index W p = pixel_index W p'"
  shows "p = p'"
  using index_inj[OF assms(1,2)] assms(3) by (simp add: pixel_index_def prod_eq_iff)

lemma block_flood:
  assumes a: "0 < a" "a \<le> W" and H: "0 < H"
  defines "r \<equiv> flood W H (block_mask W H a) {index W 0 0} [(0, 0)] []"
  shows "set (snd r) = block a H" and "distinct (snd r)"
    and "fst r = pixel_index W ` block a H"
proof -
  let ?b = "block_mask W H a"
  let ?S = "set (snd r)"
  have o: "(0, 0) \<in> block a H" using a H by (simp add: block_def)
  have a1: "\<forall>p\<in>set [(0, 0)] \<union> set []. fg_pixel W H ?b p"
    using o by (simp add: block_fg_pixel[OF a(2)])
  have a2: "{index W 0 0} = {} \<union> pixel_index W ` (set [(0, 0)] \<union> set [])"
    by (simp add: pixel_index_def)
  have a3: "\<forall>p\<in>set []. \<forall>d\<in>set dirs. fg_pixel W H ?b (shift p d)
              \<longrightarrow> pixel_index W (shift p d) \<in> {index W 0 0}"
    by simp
  from flood_closed[OF a1 a2 a3, folded r_def]
  have fg: "\<forall>p\<in>?S. fg_pixel W H ?b p"
    and vis: "fst r = {} \<union> pixel_index W ` ?S"
    and cl: "\<forall>p\<in>?S. \<forall>d\<in>set dirs. fg_pixel W H ?b (shift p d)
              \<longrightarrow> pixel_index W (shift p d) \<in> fst r"
    and st: "set [(0, 0)] \<union> set [] \<subseteq> ?S"
    by blast+
  have sub: "?S \<subseteq> block a H" using fg by (auto simp: block_fg_pixel[OF a(2)])
  have step: "shift p d \<in> ?S" if "p \<in> ?S" "d \<in> set dirs" "shift p d \<in> block a H" for p d
  proof -
    from that(3) have f: "fg_pixel W H ?b (shift p d)" by (simp add: block_fg_pixel[OF a(2)])
    with cl that(1,2) have "pixel_index W (shift p d) \<in> fst r" by blast
    with vis obtain p' where p': "p' \<in> ?S" "pixel_index W (shift p d) = pixel_index W p'"
      by auto
    from p'(1) sub have "p' \<in> block a H" by blast
    from pixel_index_inj[OF block_in_bounds[OF a(2) that(3)] block_in_bounds[OF a(2) this] p'(2)]
    show ?thesis using p'(1) by simp
  qed
  have row: "(int x, 0) \<in> ?S" if "x < a" for x
    using that
  proof (induction x)
    case 0
    then show ?case using st by simp
  next
    case (Suc x)
    then have "(int x, 0) \<in> ?S" by simp
    moreover have "(1, 0) \<in> set dirs" by (simp add: dirs_def)
    moreover have "shift (int x, 0) (1, 0) \<in> block a H"
      using Suc.prems H by (simp add: shift_def block_def)
    ultimately have "shift (int x, 0) (1, 0) \<in> ?S" by (rule step)
    then show ?case by (simp add: shift_def add.commute)
  qed
  have all: "(int x, int y) \<in> ?S" if "x < a" "y < H" for x y
    using that(2)
  proof (induction y)
    case 0
    then show ?case using row[OF that(1)] by simp
  next
    case (Suc y)
    then have "(int x, int y) \<in> ?S" by simp
    moreover have "(0, 1) \<in> set dirs" by (simp add: dirs_def)
    moreover have "shift (int x, int y) (0, 1) \<in> block a H"
      using Suc.prems that(1) by (simp add: shift_def block_def)
    ultimately have "shift (int x, int y) (0, 1) \<in> ?S" by (rule step)
    then show ?case by (simp add: shift_def add.commute)
  qed
  have sup: "block a H \<subseteq> ?S"
  proof
    fix p assume p: "p \<in> block a H"
    then have "nat (fst p) < a" "nat (snd p) < H" "0 \<le> fst p" "0 \<le> snd p"
      by (cases p; auto simp: block_def)+
    from all[OF this(1,2)] this(3,4) show "p \<in> ?S" by simp
  qed
  from sub sup show S: "?S = block a H" by blast
  show "distinct (snd r)"
    unfolding r_def by (rule flood_distinct) (simp_all add: pixel_index_def)
  from vis S show "fst r = pixel_index W ` block a H" by simp
qed

section \<open>The example image: the scan\<close>

lemma scan_order_first:
  assumes "0 < W" "0 < H"
  shows "\<exists>rest. scan_order W H = (0, 0) # rest \<and> set rest \<subseteq> set (scan_order W H)"
proof -
  from assms have "[0..<H] = 0 # [1..<H]" "[0..<W] = 0 # [1..<W]"
    by (simp_all add: upt_conv_Cons)
  then have "scan_order W H =
      (0, 0) # (map (\<lambda>x. (int x, int 0)) [1..<W]
          @ concat (map (\<lambda>y. map (\<lambda>x. (int x, int y)) [0 ..< W]) [1..<H]))"
    unfolding scan_order_def by simp
  then show ?thesis by (metis set_subset_Cons)
qed

lemma scan_loop_idle:
  "(\<forall>p\<in>set ps. binary ! pixel_index W p = 0 \<or> pixel_index W p \<in> fst vs) \<Longrightarrow>
     scan_loop maxArguments W H binary vs ps = Inr vs"
proof (induction ps)
  case Nil
  then show ?case by simp
next
  case (Cons p ps)
  then have "scan_pixel maxArguments W H binary vs p = Inr vs"
    by (simp add: scan_pixel_def Let_def pixel_index_def)
  with Cons show ?case by simp
qed

lemma block_detect_regions:
  assumes a: "0 < a" "a \<le> W" and H: "0 < H"
  shows "detect_regions maxArguments W H (block_mask W H a) =
           (case analyse_region maxArguments W H (block_mask W H a)
                   (snd (flood W H (block_mask W H a) {index W 0 0} [(0, 0)] [])) of
              Inl e \<Rightarrow> Inl e
            | Inr None \<Rightarrow>
                Inr (fst (flood W H (block_mask W H a) {index W 0 0} [(0, 0)] []), [])
            | Inr (Some s) \<Rightarrow>
                Inr (fst (flood W H (block_mask W H a) {index W 0 0} [(0, 0)] []), [s]))"
proof -
  let ?b = "block_mask W H a"
  let ?r = "flood W H ?b {index W 0 0} [(0, 0)] []"
  let ?res = "case analyse_region maxArguments W H ?b (snd ?r) of
              Inl e \<Rightarrow> Inl e
            | Inr None \<Rightarrow> Inr (fst ?r, [])
            | Inr (Some s) \<Rightarrow> Inr (fst ?r, [s])"
  from a have W: "0 < W" by simp
  from scan_order_first[OF W H] obtain rest where
    rest: "scan_order W H = (0, 0) # rest" "set rest \<subseteq> set (scan_order W H)" by blast
  have o: "\<not> out_of_bounds W H 0 0" using W H by (simp add: out_of_bounds_def)
  have "?b ! index W 0 0 = 1" using block_mask_at[OF o, of a] a by simp
  then have first: "scan_pixel maxArguments W H ?b ({}, []) (0, 0) = ?res"
    by (simp add: scan_pixel_def Let_def del: flood.simps split: sum.splits option.splits)
  have idle: "\<forall>p\<in>set rest. ?b ! pixel_index W p = 0 \<or> pixel_index W p \<in> fst (fst ?r, shapes)"
    for shapes :: "DetectedShape list"
  proof
    fix p assume "p \<in> set rest"
    with rest(2) have ib: "\<not> out_of_bounds W H (fst p) (snd p)"
      using scan_order_in_bounds by blast
    show "?b ! pixel_index W p = 0 \<or> pixel_index W p \<in> fst (fst ?r, shapes)"
    proof (cases "fst p < int a")
      case True
      with ib have "p \<in> block a H" by (cases p) (auto simp: block_def out_of_bounds_def)
      then show ?thesis using block_flood(3)[OF a H] by simp
    next
      case False
      then show ?thesis using block_mask_at[OF ib, of a] by (simp add: pixel_index_def)
    qed
  qed
  have "detect_regions maxArguments W H ?b =
          (case ?res of Inl e \<Rightarrow> Inl e | Inr vs \<Rightarrow> scan_loop maxArguments W H ?b vs rest)"
    unfolding detect_regions_def rest(1) using first by (simp del: flood.simps)
  also have "\<dots> = ?res"
  proof (cases "analyse_region maxArguments W H ?b (snd ?r)")
    case (Inl e)
    then show ?thesis by (simp del: flood.simps)
  next
    case (Inr o)
    have "scan_loop maxArguments W H ?b (fst ?r, shapes) rest = Inr (fst ?r, shapes)" for shapes
      by (rule scan_loop_idle[OF idle])
    with Inr show ?thesis by (simp del: flood.simps split: option.splits)
  qed
  finally show ?thesis .
qed

section \<open>The example image: the features of the region\<close>

lemma block_edge:
  assumes a: "0 < a" "a < W" and p: "p \<in> block a H"
  shows "edge_scan W H (block_mask W H a) p dirs \<longleftrightarrow> fst p = int a - 1"
proof -
  have m: "\<not> out_of_bounds W H x y \<Longrightarrow> block_mask W H a ! index W x y = 0 \<longleftrightarrow> \<not> x < int a"
    for x y using block_mask_at[of W H x y a] by simp
  have e: "edge_scan W H (block_mask W H a) p dirs \<longleftrightarrow>
     (\<exists>d\<in>set dirs. \<not> out_of_bounds W H (fst p + fst d) (snd p + snd d)
        \<and> \<not> fst p + fst d < int a)"
    unfolding edge_scan_iff using m by blast
  from p have b: "0 \<le> fst p" "fst p < int a" "0 \<le> snd p" "snd p < int H"
    by (cases p; simp add: block_def)+
  show ?thesis
  proof
    assume "edge_scan W H (block_mask W H a) p dirs"
    with e obtain d where "d \<in> set dirs" "\<not> fst p + fst d < int a" by blast
    then show "fst p = int a - 1" using b by (auto simp: dirs_def)
  next
    assume l: "fst p = int a - 1"
    have "(1, 0) \<in> set dirs" by (simp add: dirs_def)
    moreover have "\<not> out_of_bounds W H (fst p + fst (1::int, 0::int)) (snd p + snd (1::int, 0::int))"
      using l b a by (simp add: out_of_bounds_def)
    moreover have "\<not> fst p + fst (1::int, 0::int) < int a" using l by simp
    ultimately show "edge_scan W H (block_mask W H a) p dirs" unfolding e by blast
  qed
qed

lemma block_features:
  assumes a: "0 < a" "a < W" and H: "0 < H"
    and ps: "set ps = block a H" "distinct ps"
  defines "f \<equiv> region_features W H (block_mask W H a) ps"
  shows "f_area f = a * H" "f_minX f = 0" "f_maxX f = int a - 1"
    "f_minY f = 0" "f_maxY f = int H - 1" "f_perimeter f = H"
proof -
  have card: "card (block a H) = a * H" by (simp add: block_def card_cartesian_product)
  show "f_area f = a * H"
    unfolding f_def region_features_fields using distinct_card[OF ps(2)] ps(1) card by simp
  have xs: "set (map fst ps) = {0 ..< int a}"
    using ps(1) H by (auto simp: block_def image_iff)
  have ys: "set (map snd ps) = {0 ..< int H}"
    using ps(1) a by (auto simp: block_def image_iff)
  show "f_minX f = 0" unfolding f_def region_features_fields xs
    using a by (intro Min_eqI) simp_all
  show "f_maxX f = int a - 1" unfolding f_def region_features_fields xs
    using a by (intro Max_eqI) simp_all
  show "f_minY f = 0" unfolding f_def region_features_fields ys
    using H by (intro Min_eqI) simp_all
  show "f_maxY f = int H - 1" unfolding f_def region_features_fields ys
    using H by (intro Max_eqI) simp_all
  let ?E = "\<lambda>p. edge_scan W H (block_mask W H a) p dirs"
  have "f_perimeter f = length (filter ?E ps)"
    unfolding f_def region_features_fields by (rule region_perimeter_filter)
  also have "\<dots> = card (set (filter ?E ps))"
    using distinct_card[OF distinct_filter[OF ps(2)], of ?E] by simp
  also have "set (filter ?E ps) = {int a - 1} \<times> {0 ..< int H}"
    using ps(1) block_edge[OF a] a by (auto simp: block_def)
  also have "card ({int a - 1} \<times> {0 ..< int H}) = H" by (simp add: card_cartesian_product)
  finally show "f_perimeter f = H" .
qed

section \<open>The example image: the result of detectShapes\<close>

lemma example_region_props:
  "set example_region = block 12 25" "distinct example_region"
  unfolding example_region_def
  by (rule block_flood; simp)+

lemma example_mask: "binarize (grayscale example_image) = block_mask 24 25 12"
  unfolding example_image_def block_grayscale by (rule block_binarize) simp_all

lemma example_features:
  fixes f
  defines "f \<equiv> region_features 24 25 (block_mask 24 25 12) example_region"
  shows "f_area f = 300" "f_minX f = 0" "f_maxX f = 11" "f_minY f = 0" "f_maxY f = 24"
    "f_perimeter f = 25"
  using block_features[of 12 24 25 example_region] example_region_props
  unfolding f_def by simp_all

lemma example_circularity:
  "f_circularity (region_features 24 25 (block_mask 24 25 12) example_region)
     = 4 * pi * 300 / (625 + 1/1000000)"
  unfolding region_features_derived(1) example_features by simp

lemma example_circularity_gt_1: "1 < 4 * pi * 300 / (625 + 1/1000000)"
proof -
  have "(625 + 1/1000000 :: real) < 4 * 2 * 300" by simp
  also have "\<dots> \<le> 4 * pi * 300" using pi_ge_two by simp
  finally show ?thesis by (simp add: less_divide_eq)
qed

lemma example_not_rejected:
  "\<not> rejected (region_features 24 25 (block_mask 24 25 12) example_region)"
  unfolding rejected_def region_features_derived bbox_width_def bbox_height_def example_features
  by simp

lemma example_classify:
  "classify (region_features 24 25 (block_mask 24 25 12) example_region)
     = (Circle, 4 * pi * 300 / (625 + 1/1000000))"
  unfolding classify_def example_circularity using example_circularity_gt_1 by simp

text \<open>The region of 300 pixels is within the limit of every engine; 65536 is taken here.\<close>

lemma example_analyse:
  assumes "300 \<le> maxArguments"
  shows "analyse_region maxArguments 24 25 (block_mask 24 25 12) example_region
           = Inr (Some example_shape)"
proof -
  let ?f = "region_features 24 25 (block_mask 24 25 12) example_region"
  have "length example_region = 300"
    using example_features(1) by (simp add: region_features_fields)
  then show ?thesis
    unfolding analyse_region_def Let_def using assms
    by (simp add: example_not_rejected example_classify example_features
          bbox_width_def bbox_height_def example_shape_def)
qed

lemma example_detectShapes:
  assumes "300 \<le> maxArguments"
  shows "detectShapes maxArguments startTime endTime example_image
     = Inr \<lparr>shapes = [example_shape], processingTime = endTime - startTime,
            imageWidth = 24, imageHeight = 25\<rparr>"
proof -
  have w: "img_width example_image = 24" "img_height example_image = 25"
    by (simp_all add: example_image_def block_image_def)
  have "\<exists>v. detect_regions maxArguments 24 25 (block_mask 24 25 12) = Inr (v, [example_shape])"
    using block_detect_regions[of 12 24 25 maxArguments] example_analyse[OF assms]
    by (simp add: example_region_def del: flood.simps)
  then show ?thesis
    unfolding detectShapes_def Let_def w example_mask by auto
qed
section \<open>Claims about detectShapes on the example image\<close>

text \<open>
  C1 as stated fails on the example image: the black block of 300 pixels has only the 25
  pixels of its right column next to background inside the image, so its circularity is
  \<open>4\<pi>\<cdot>300 / (625 + 10\<^sup>-\<^sup>6)\<close>, about 6.03, and this is the confidence of the circle reported.
\<close>

theorem confidence_above_one_counterexample:
  "detectShapes 65536 0 0 example_image
     = Inr \<lparr>shapes = [example_shape], processingTime = 0, imageWidth = 24, imageHeight = 25\<rparr>
   \<and> shape_type example_shape = Circle
   \<and> confidence example_shape = 4 * pi * 300 / (625 + 1/1000000)
   \<and> 1 < confidence example_shape"
  using example_detectShapes[of 65536 0 0] example_circularity_gt_1
  by (simp add: example_shape_def)

theorem detected_shapes_area_confidence_witness:
  "example_shape \<in> set (shapes \<lparr>shapes = [example_shape], processingTime = 0,
                                 imageWidth = 24, imageHeight = 25\<rparr>)
   \<and> 300 \<le> area example_shape \<and> 3/4 < confidence example_shape"
proof -
  have m: "example_shape \<in> set (shapes \<lparr>shapes = [example_shape], processingTime = 0,
                                 imageWidth = 24, imageHeight = 25\<rparr>)"
    by simp
  have c: "shape_type example_shape = Circle" by (simp add: example_shape_def)
  from detected_shapes_area_confidence[OF example_detectShapes[of 65536 0 0, simplified] m] c m
  show ?thesis by blast
qed

theorem accepted_shapes_have_extent_witness:
  "example_shape \<in> set (shapes \<lparr>shapes = [example_shape], processingTime = 0,
                                 imageWidth = 24, imageHeight = 25\<rparr>)
   \<and> 1 \<le> box_width (boundingBox example_shape) \<and> 1 \<le> box_height (boundingBox example_shape)"
proof -
  have m: "example_shape \<in> set (shapes \<lparr>shapes = [example_shape], processingTime = 0,
                                 imageWidth = 24, imageHeight = 25\<rparr>)"
    by simp
  from accepted_shapes_have_extent[OF example_detectShapes[of 65536 0 0, simplified] m] m
  show ?thesis by blast
qed

section \<open>Claims about the perimeter\<close>

lemma edge_scan_inner_edge:
  "edge_scan width height binary p dirs \<longleftrightarrow> inner_edge_pixel width height binary p"
  by (simp add: edge_scan_iff inner_edge_pixel_def shift_def pixel_index_def)

text \<open>
  C2, amended: the perimeter computed for a region is the number of its pixels that have at
  least one 8-neighbour inside the image that is a background pixel.  Neighbours outside the
  image are skipped: a pixel all of whose neighbours are outside the image or not
  background is not counted.
\<close>

theorem perimeter_counts_inner_edge_pixels:
  "region_perimeter width height binary pixels
     = length (filter (inner_edge_pixel width height binary) pixels)
   \<and> (distinct pixels \<longrightarrow>
        region_perimeter width height binary pixels
          = card {p \<in> set pixels. inner_edge_pixel width height binary p})
   \<and> ((\<forall>d\<in>set dirs. out_of_bounds width height (fst (shift p d)) (snd (shift p d))
                       \<or> binary ! pixel_index width (shift p d) \<noteq> 0)
        \<longrightarrow> \<not> edge_scan width height binary p dirs)"
proof -
  have l: "region_perimeter width height binary pixels
     = length (filter (inner_edge_pixel width height binary) pixels)"
    unfolding region_perimeter_filter by (simp add: edge_scan_inner_edge)
  have c: "distinct pixels \<longrightarrow>
        region_perimeter width height binary pixels
          = card {p \<in> set pixels. inner_edge_pixel width height binary p}"
  proof
    assume "distinct pixels"
    from distinct_card[OF distinct_filter[OF this], of "inner_edge_pixel width height binary"]
    show "region_perimeter width height binary pixels
          = card {p \<in> set pixels. inner_edge_pixel width height binary p}"
      unfolding l by simp
  qed
  have n: "(\<forall>d\<in>set dirs. out_of_bounds width height (fst (shift p d)) (snd (shift p d))
                       \<or> binary ! pixel_index width (shift p d) \<noteq> 0)
        \<longrightarrow> \<not> edge_scan width height binary p dirs"
    unfolding edge_scan_inner_edge inner_edge_pixel_def by blast
  from l c n show ?thesis by blast
qed

lemma example_perimeter: "region_perimeter 24 25 (block_mask 24 25 12) example_region = 25"
  using example_features(6) by (simp add: region_features_fields)

theorem perimeter_counts_inner_edge_pixels_witness:
  "distinct example_region
   \<and> region_perimeter 24 25 (block_mask 24 25 12) example_region = 25
   \<and> card {p \<in> set example_region. inner_edge_pixel 24 25 (block_mask 24 25 12) p} = 25
   \<and> \<not> edge_scan 24 25 (block_mask 24 25 12) (0, 0) dirs"
proof -
  note t = perimeter_counts_inner_edge_pixels[of 24 25 "block_mask 24 25 12" example_region "(0, 0)"]
  have o: "(0, 0) \<in> block 12 25" by (simp add: block_def)
  have "\<not> edge_scan 24 25 (block_mask 24 25 12) (0, 0) dirs"
    using block_edge[of 12 24 "(0, 0)" 25] o by simp
  with t example_region_props(2) example_perimeter show ?thesis by simp
qed

lemma example_spec_boundary:
  assumes "p \<in> block 12 25"
  shows "spec_boundary_pixel 24 25 example_region p \<longleftrightarrow> p \<notin> {1..10} \<times> {1..23}"
proof -
  obtain x y where p: "p = (x, y)" by (cases p)
  from assms have b: "0 \<le> x" "x < 12" "0 \<le> y" "y < 25" by (simp_all add: p block_def)
  have oob: "out_of_bounds 24 25 x' y' \<Longrightarrow> (x', y') \<notin> block 12 25" for x' y'
    by (auto simp: out_of_bounds_def block_def)
  have e: "spec_boundary_pixel 24 25 example_region p \<longleftrightarrow>
             (\<exists>d\<in>set dirs. shift p d \<notin> block 12 25)"
    unfolding spec_boundary_pixel_def example_region_props(1)
    using oob by (metis prod.collapse)
  show ?thesis
  proof (cases "p \<in> {1..10} \<times> {1..23}")
    case True
    then have "\<forall>d\<in>set dirs. shift p d \<in> block 12 25"
      by (auto simp: p dirs_def shift_def block_def)
    with True e show ?thesis by blast
  next
    case False
    then consider "x = 0" | "x = 11" | "y = 0" | "y = 24" using b by (auto simp: p)
    then have "\<exists>d\<in>set dirs. shift p d \<notin> block 12 25"
    proof cases
      case 1
      then have "(-1, 0) \<in> set dirs \<and> shift p (-1, 0) \<notin> block 12 25"
        by (simp add: p dirs_def shift_def block_def)
      then show ?thesis by blast
    next
      case 2
      then have "(1, 0) \<in> set dirs \<and> shift p (1, 0) \<notin> block 12 25"
        by (simp add: p dirs_def shift_def block_def)
      then show ?thesis by blast
    next
      case 3
      then have "(0, -1) \<in> set dirs \<and> shift p (0, -1) \<notin> block 12 25"
        by (simp add: p dirs_def shift_def block_def)
      then show ?thesis by blast
    next
      case 4
      then have "(0, 1) \<in> set dirs \<and> shift p (0, 1) \<notin> block 12 25"
        by (simp add: p dirs_def shift_def block_def)
      then show ?thesis by blast
    qed
    with False e show ?thesis by blast
  qed
qed

lemma example_spec_perimeter: "spec_perimeter 24 25 example_region = 70"
proof -
  let ?I = "{1..10::int} \<times> {1..23::int}"
  have sub: "?I \<subseteq> block 12 25" by (auto simp: block_def)
  have "spec_perimeter 24 25 example_region
          = card (set (filter (spec_boundary_pixel 24 25 example_region) example_region))"
    unfolding spec_perimeter_def
    using distinct_card[OF distinct_filter[OF example_region_props(2)]] by simp
  also have "set (filter (spec_boundary_pixel 24 25 example_region) example_region)
               = block 12 25 - ?I"
    using example_spec_boundary by (auto simp: example_region_props(1))
  also have "card (block 12 25 - ?I) = card (block 12 25) - card ?I"
    by (rule card_Diff_subset[OF _ sub]) simp
  also have "\<dots> = 70" by (simp add: block_def card_cartesian_product)
  finally show ?thesis .
qed

text \<open>
  C2 as stated fails on the region of the example image.  Of its 300 pixels, 70 have a
  neighbour outside the region or outside the image (the four sides of the block), but the
  code counts only the 25 of the right column; the corner pixel \<open>(0,0)\<close>, whose neighbours
  outside the region are all outside the image, is not counted.
\<close>

theorem perimeter_border_counterexample:
  "region_perimeter 24 25 (binarize (grayscale example_image)) example_region = 25
   \<and> spec_perimeter 24 25 example_region = 70
   \<and> (0, 0) \<in> set example_region
   \<and> spec_boundary_pixel 24 25 example_region (0, 0)
   \<and> \<not> edge_scan 24 25 (binarize (grayscale example_image)) (0, 0) dirs"
proof -
  have o: "(0, 0) \<in> block 12 25" by (simp add: block_def)
  have "spec_boundary_pixel 24 25 example_region (0, 0)"
    using example_spec_boundary[OF o] by simp
  moreover have "\<not> edge_scan 24 25 (block_mask 24 25 12) (0, 0) dirs"
    using block_edge[of 12 24 "(0, 0)" 25] o by simp
  ultimately show ?thesis
    using o by (simp add: example_mask example_perimeter example_spec_perimeter
                  example_region_props(1))
qed

section \<open>Claims about the errors of detectShapes\<close>





end
